theory Spec2Isabelle
  imports Main "HOL-Library.Word" "HOL-Library.Multiset" "HOL-Library.Product_Lexorder"
begin

section \<open>Implicit interval trees (iit) and their interpolation index (iitii)\<close>

text \<open>
  A shallow embedding of \<^verbatim>\<open>iitii.h\<close>.

  \<^item> The template parameter \<^verbatim>\<open>Pos\<close> of the base class is the type variable \<open>'p\<close> of a
    linear order with a greatest element; \<^verbatim>\<open>std::numeric_limits<Pos>::max()\<close>, which is
    also the reserved \<^verbatim>\<open>npos\<close>, is \<open>top\<close>. The interpolation index computes with
    positions, so there \<^verbatim>\<open>Pos\<close> is \<^verbatim>\<open>uint32_t\<close>, the type \<open>32 word\<close>, whose least value
    \<^verbatim>\<open>std::numeric_limits<Pos>::min()\<close> is \<open>bot = 0\<close>. Floating-point positions are not
    covered.
  \<^item> \<^verbatim>\<open>Item\<close> is the type variable \<open>'a\<close>; the template parameters \<^verbatim>\<open>get_beg\<close> and
    \<^verbatim>\<open>get_end\<close> are the function arguments \<open>gb\<close> and \<open>ge\<close>.
  \<^item> A \<^verbatim>\<open>Rank\<close> or \<^verbatim>\<open>Level\<close> (\<^verbatim>\<open>size_t\<close>) is a \<open>nat\<close>: ranks stay below twice the
    length of the node vector, so no rank computation wraps. The reserved rank
    \<^verbatim>\<open>nrank\<close> is a value of its own in the type \<open>rank\<close>.
  \<^item> Every function that can fail to return a value returns an \<open>option\<close>: \<open>None\<close> is a
    failed \<^verbatim>\<open>assert\<close> (the program aborts), a division by zero, a read of the node
    vector at \<^verbatim>\<open>nrank\<close>, or a loop that does not end. The argument \<open>ndebug\<close> says whether
    the macro \<^verbatim>\<open>NDEBUG\<close> is defined: with \<open>ndebug = False\<close>, the default, every \<^verbatim>\<open>assert\<close>
    of the source is checked; with \<open>ndebug = True\<close> none is.
  \<^item> A \<^verbatim>\<open>while\<close> loop whose termination depends on the tree geometry is a
    \<^theory_text>\<open>partial_function\<close> in the option monad.
\<close>

subsection \<open>Nodes\<close>

record ('p, 'a) iit_node_base =
  item :: 'a
  inside_max_end :: 'p

definition iit_node_base_ctor :: "('a \<Rightarrow> 'p) \<Rightarrow> 'a \<Rightarrow> ('p, 'a) iit_node_base" where
  "iit_node_base_ctor ge it = \<lparr>item = it, inside_max_end = ge it\<rparr>"

text \<open>\<^verbatim>\<open>iit_node_base::operator<\<close>: by begin position, then by end position.\<close>

definition node_less ::
  "('a \<Rightarrow> 'p::linorder) \<Rightarrow> ('a \<Rightarrow> 'p) \<Rightarrow> ('p, 'a, 'm) iit_node_base_scheme
     \<Rightarrow> ('p, 'a, 'm) iit_node_base_scheme \<Rightarrow> bool" where
  "node_less gb ge lhs rhs =
     (let lbeg = gb (item lhs); rbeg = gb (item rhs)
      in if lbeg = rbeg then ge (item lhs) < ge (item rhs) else lbeg < rbeg)"

text \<open>
  \<^verbatim>\<open>std::sort\<close> is library code; it is modelled by an insertion sort that calls the
  comparison the way \<^verbatim>\<open>std::sort\<close> does and moves an element only past strictly
  greater ones. Where the order of nodes that compare equal matters, the theorems say so;
  all others use only that the result is a sorted permutation.
\<close>

fun sort_insert :: "('n \<Rightarrow> 'n \<Rightarrow> bool) \<Rightarrow> 'n \<Rightarrow> 'n list \<Rightarrow> 'n list" where
  "sort_insert lt x [] = [x]"
| "sort_insert lt x (y # ys) = (if lt x y then x # y # ys else y # sort_insert lt x ys)"

definition std_sort :: "('n \<Rightarrow> 'n \<Rightarrow> bool) \<Rightarrow> 'n list \<Rightarrow> 'n list" where
  "std_sort lt xs = fold (sort_insert lt) xs []"

subsection \<open>Implicit tree geometry\<close>

text \<open>\<^verbatim>\<open>__builtin_ctzll(~node)\<close>: the number of 1 bits below the lowest 0 bit. The loop of
  the debug build that recomputes it (\<^verbatim>\<open>for (chk=0; node&1; chk++, node>>=1)\<close>) is this
  recursion, so its \<^verbatim>\<open>assert(ans == chk)\<close> holds.\<close>

fun trailing_ones :: "nat \<Rightarrow> nat" where
  "trailing_ones node = (if node mod 2 = 1 then Suc (trailing_ones (node div 2)) else 0)"

declare trailing_ones.simps [simp del]

datatype rank = nrank | Rank nat

record 'n iit_base =
  nodes :: "'n list"
  full_size :: nat
  root :: nat
  root_level :: nat

definition level :: "bool \<Rightarrow> ('n, 'z) iit_base_scheme \<Rightarrow> nat \<Rightarrow> nat option" where
  "level ndebug t node =
     (if \<not> (ndebug \<or> node < full_size t) then None
      else Some (trailing_ones node))"

definition parent :: "bool \<Rightarrow> ('n, 'z) iit_base_scheme \<Rightarrow> nat \<Rightarrow> rank option" where
  "parent ndebug t node =
     (if \<not> (ndebug \<or> node < full_size t) then None
      else if node = root t then Some nrank
      else case level ndebug t node of None \<Rightarrow> None
        | Some lv \<Rightarrow>
            let ofs = 2 ^ lv
            in if \<not> (ndebug \<or> node \<ge> ofs - 1) then None
               else if (node div 2 ^ (lv + 1)) mod 2 = 1 then
                 (if \<not> (ndebug \<or> node \<ge> ofs) then None else Some (Rank (node - ofs)))
               else Some (Rank (node + ofs)))"

definition left :: "bool \<Rightarrow> ('n, 'z) iit_base_scheme \<Rightarrow> nat \<Rightarrow> rank option" where
  "left ndebug t node =
     (case level ndebug t node of None \<Rightarrow> None
      | Some lv \<Rightarrow> Some (if lv > 0 then Rank (node - 2 ^ (lv - 1)) else nrank))"

definition right :: "bool \<Rightarrow> ('n, 'z) iit_base_scheme \<Rightarrow> nat \<Rightarrow> rank option" where
  "right ndebug t node =
     (case level ndebug t node of None \<Rightarrow> None
      | Some lv \<Rightarrow> Some (if lv > 0 then Rank (node + 2 ^ (lv - 1)) else nrank))"

subsection \<open>Coordinates of a rank: level and offset within the level\<close>

text \<open>
  \<open>nd k j\<close> is the rank of the \<open>j\<close>-th node (from the left, counting from 0) of level
  \<open>k\<close>, that is \<open>2 ^ k * (2 * j + 1) - 1\<close>. Every rank is of this form for exactly one
  \<open>k\<close> and \<open>j\<close>; the lemmas below express \<open>trailing_ones\<close>, \<open>left\<close>, \<open>right\<close> and
  \<open>parent\<close> in these coordinates.
\<close>

primrec nd :: "nat \<Rightarrow> nat \<Rightarrow> nat" where
  "nd 0 j = 2 * j"
| "nd (Suc k) j = 2 * nd k j + 1"

lemma trailing_ones_even: "even n \<Longrightarrow> trailing_ones n = 0"
  by (subst trailing_ones.simps) (simp add: even_iff_mod_2_eq_zero)

lemma trailing_ones_odd: "odd n \<Longrightarrow> trailing_ones n = Suc (trailing_ones (n div 2))"
  by (subst trailing_ones.simps) (simp add: odd_iff_mod_2_eq_one)

lemma Suc_nd: "Suc (nd k j) = 2 ^ k * (2 * j + 1)"
  by (induction k) (simp_all add: algebra_simps)

lemma nd_eq: "nd k j = 2 ^ (k + 1) * j + 2 ^ k - 1"
  using Suc_nd[of k j] by (simp add: algebra_simps)

lemma trailing_ones_nd: "trailing_ones (nd k j) = k"
  by (induction k) (simp_all add: trailing_ones_even trailing_ones_odd)

lemma nd_trailing_ones: "\<exists>j. n = nd (trailing_ones n) j"
proof (induction n rule: trailing_ones.induct)
  case (1 n)
  show ?case
  proof (cases "even n")
    case True
    then show ?thesis by (auto simp: trailing_ones_even)
  next
    case False
    then have "n mod 2 = 1" by (simp add: odd_iff_mod_2_eq_one)
    from 1[OF this] obtain j where j: "n div 2 = nd (trailing_ones (n div 2)) j" by blast
    have "n = 2 * (n div 2) + 1" using False by (simp add: odd_iff_mod_2_eq_one)
    then have "n = nd (Suc (trailing_ones (n div 2))) j" using j by simp
    then show ?thesis using False by (auto simp: trailing_ones_odd)
  qed
qed

lemma nd_inj: "nd k j = nd k j' \<Longrightarrow> j = j'"
  by (induction k) simp_all

lemma nd_mono: "j \<le> j' \<Longrightarrow> nd k j \<le> nd k j'"
  by (induction k) simp_all

lemma nd_strict_mono: "j < j' \<Longrightarrow> nd k j < nd k j'"
  by (induction k) simp_all

lemma nd_left: "nd k (2 * j) + 2 ^ k = nd (Suc k) j"
proof (induction k)
  case 0 show ?case by simp
next
  case (Suc k)
  have "nd (Suc k) (2 * j) + 2 ^ Suc k = 2 * (nd k (2 * j) + 2 ^ k) + 1" by simp
  also have "\<dots> = nd (Suc (Suc k)) j" unfolding Suc by simp
  finally show ?case .
qed

lemma nd_right: "nd (Suc k) j + 2 ^ k = nd k (2 * j + 1)"
proof (induction k)
  case 0 show ?case by simp
next
  case (Suc k)
  have "nd (Suc (Suc k)) j + 2 ^ Suc k = 2 * (nd (Suc k) j + 2 ^ k) + 1" by simp
  also have "\<dots> = nd (Suc k) (2 * j + 1)" unfolding Suc by simp
  finally show ?case .
qed

lemma nd_div: "nd k j div 2 ^ (k + 1) = j"
proof (induction k)
  case 0 show ?case by simp
next
  case (Suc k)
  have "nd (Suc k) j div 2 ^ (Suc k + 1) = (2 * nd k j + 1) div (2 * 2 ^ (k + 1))" by simp
  also have "\<dots> = ((2 * nd k j + 1) div 2) div 2 ^ (k + 1)"
    by (rule div_mult2_eq)
  also have "(2 * nd k j + 1) div 2 = nd k j" by simp
  finally show ?case using Suc by simp
qed

primrec below :: "nat \<Rightarrow> nat" where
  "below 0 = 0"
| "below (Suc k) = 2 * below k + 1"

lemma Suc_below: "Suc (below k) = 2 ^ k"
  by (induction k) simp_all

lemma below_eq: "below k = 2 ^ k - 1"
  using Suc_below[of k] by simp

lemma nd_below: "nd k j = 2 ^ (k + 1) * j + below k"
  by (induction k) (simp_all add: algebra_simps)


lemma below_mono: "k \<le> k' \<Longrightarrow> below k \<le> below k'"
  by (simp add: below_eq diff_le_mono)

lemma below_le_nd: "below k \<le> nd k j"
  by (simp add: nd_below)

lemma nd_trailing_ones_eq: "nd k j = nd k' j' \<Longrightarrow> k = k'"
  using trailing_ones_nd by metis

lemma nd_child_less: "nd k (2 * j) < nd (Suc k) j" "nd (Suc k) j < nd k (2 * j + 1)"
proof -
  have "0 < (2::nat) ^ k" by simp
  then show "nd k (2 * j) < nd (Suc k) j" "nd (Suc k) j < nd k (2 * j + 1)"
    using nd_left[of k j] nd_right[of k j] by linarith+
qed

lemma nd_Suc_odd: "odd (nd (Suc k) j)"
  by simp

lemma nd_Suc_step: "nd k j + 2 ^ (k + 1) = nd k (Suc j)"
  by (simp add: nd_below)

text \<open>The ranks of the tree of root level \<open>rl\<close>, which are those below \<open>below (Suc rl)\<close>, are
  the \<open>nd k j\<close> with \<open>k \<le> rl\<close> and \<open>j < 2 ^ (rl - k)\<close>.\<close>

lemma nd_in_tree:
  assumes "nd k j < below (Suc rl)"
  shows "k \<le> rl \<and> j < 2 ^ (rl - k)"
proof -
  have k: "k \<le> rl"
  proof (rule ccontr)
    assume "\<not> k \<le> rl"
    then have "below (Suc rl) \<le> below k" by (intro below_mono) simp
    then show False using assms below_le_nd[of k j] by simp
  qed
  have "2 ^ (k + 1) * j \<le> nd k j" by (simp add: nd_below)
  then have "2 ^ (k + 1) * j < 2 ^ (rl + 1)"
    using assms Suc_below[of "Suc rl"] by simp
  moreover have "(2::nat) ^ (rl + 1) = 2 ^ (k + 1) * 2 ^ (rl - k)"
    using k by (simp add: power_add[symmetric])
  ultimately have "j < 2 ^ (rl - k)" by simp
  then show ?thesis using k by simp
qed

lemma in_tree_nd:
  assumes "k \<le> rl" and "j < 2 ^ (rl - k)"
  shows "nd k j < below (Suc rl)"
proof -
  have "Suc j \<le> 2 ^ (rl - k)" using assms(2) by simp
  then have "2 ^ (k + 1) * Suc j \<le> 2 ^ (k + 1) * 2 ^ (rl - k)" by (rule mult_le_mono2)
  also have "\<dots> = 2 ^ (rl + 1)" using assms(1) by (simp add: power_add[symmetric])
  finally have "2 ^ (k + 1) * j + 2 ^ (k + 1) \<le> 2 ^ (rl + 1)" by simp
  moreover have "below k + 2 \<le> 2 ^ (k + 1)"
  proof -
    have "(1::nat) \<le> 2 ^ k" by simp
    then show ?thesis using Suc_below[of k] by simp
  qed
  ultimately have "2 ^ (k + 1) * j + below k + 2 \<le> 2 ^ (rl + 1)" by linarith
  moreover have "Suc (below (Suc rl)) = 2 ^ (rl + 1)" using Suc_below[of "Suc rl"] by simp
  ultimately have "2 ^ (k + 1) * j + below k < below (Suc rl)" by linarith
  then show ?thesis by (simp only: nd_below)
qed

subsection \<open>The member functions in coordinates\<close>

text \<open>The ranks that \<^verbatim>\<open>left\<close> and \<^verbatim>\<open>right\<close> return when their assertion holds.\<close>

definition left_child :: "nat \<Rightarrow> rank" where
  "left_child node =
     (let lv = trailing_ones node in if lv > 0 then Rank (node - 2 ^ (lv - 1)) else nrank)"

definition right_child :: "nat \<Rightarrow> rank" where
  "right_child node =
     (let lv = trailing_ones node in if lv > 0 then Rank (node + 2 ^ (lv - 1)) else nrank)"

lemma left_eq:
  "left ndebug t node = (if ndebug \<or> node < full_size t then Some (left_child node) else None)"
  by (simp add: left_def level_def left_child_def)

lemma right_eq:
  "right ndebug t node = (if ndebug \<or> node < full_size t then Some (right_child node) else None)"
  by (simp add: right_def level_def right_child_def)

lemma left_child_nd_0: "left_child (nd 0 j) = nrank"
  using trailing_ones_nd[of 0 j] by (simp add: left_child_def)

lemma right_child_nd_0: "right_child (nd 0 j) = nrank"
  using trailing_ones_nd[of 0 j] by (simp add: right_child_def)

lemma left_child_nd_Suc: "left_child (nd (Suc k) j) = Rank (nd k (2 * j))"
  using trailing_ones_nd[of "Suc k" j] nd_left[of k j, symmetric] by (simp add: left_child_def)

lemma right_child_nd_Suc: "right_child (nd (Suc k) j) = Rank (nd k (2 * j + 1))"
  using trailing_ones_nd[of "Suc k" j] nd_right[of k j] by (simp add: right_child_def)

lemma parent_nd:
  assumes "nd k j \<noteq> root t" and "ndebug \<or> nd k j < full_size t"
  shows "parent ndebug t (nd k j) = Some (Rank (nd (Suc k) (j div 2)))"
proof -
  have lv: "level ndebug t (nd k j) = Some k"
    using assms(2) by (simp add: level_def trailing_ones_nd)
  have ofs: "2 ^ k - 1 \<le> nd k j" using Suc_nd[of k j] by simp
  show ?thesis
  proof (cases "even j")
    case True
    then obtain i where i: "j = 2 * i" by (auto elim: evenE)
    show ?thesis using assms True nd_left[of k i] lv ofs nd_div[of k j]
      by (simp add: parent_def Let_def i)
  next
    case False
    then obtain i where i: "j = 2 * i + 1" by (auto elim: oddE)
    have "nd k (2 * i + 1) - 2 ^ k = nd (Suc k) i"
      using nd_right[of k i] by simp
    moreover have "2 ^ k \<le> nd k (2 * i + 1)" using nd_right[of k i] by simp
    ultimately show ?thesis using assms False lv ofs nd_div[of k j]
      by (simp add: parent_def Let_def i odd_iff_mod_2_eq_one)
  qed
qed

text \<open>The ranks of the subtree below a rank, by the child relations.\<close>

function in_subtree :: "nat \<Rightarrow> nat \<Rightarrow> bool" where
  "in_subtree n m =
     (m = n \<or> (case left_child n of nrank \<Rightarrow> False | Rank l \<Rightarrow> in_subtree l m)
            \<or> (case right_child n of nrank \<Rightarrow> False | Rank r \<Rightarrow> in_subtree r m))"
  by pat_completeness auto
termination
proof (relation "measure (\<lambda>(n, m). trailing_ones n)", goal_cases)
  case 1
  show ?case by simp
next
  case (2 n m l)
  obtain j where j: "n = nd (trailing_ones n) j" using nd_trailing_ones by blast
  show ?case
  proof (cases "trailing_ones n")
    case 0
    then show ?thesis using 2 by (simp add: left_child_def)
  next
    case (Suc k)
    then have "left_child n = Rank (nd k (2 * j))" using j left_child_nd_Suc[of k j] by simp
    then show ?thesis using 2 Suc by (auto simp: trailing_ones_nd)
  qed
next
  case (3 n m r)
  obtain j where j: "n = nd (trailing_ones n) j" using nd_trailing_ones by blast
  show ?case
  proof (cases "trailing_ones n")
    case 0
    then show ?thesis using 3 by (simp add: right_child_def)
  next
    case (Suc k)
    then have "right_child n = Rank (nd k (2 * j + 1))" using j right_child_nd_Suc[of k j] by simp
    then show ?thesis using 3 Suc by (auto simp: trailing_ones_nd)
  qed
qed

declare in_subtree.simps [simp del]

text \<open>The ranks that \<^verbatim>\<open>leftmost_child\<close> and \<^verbatim>\<open>rightmost_child\<close> (members of \<^verbatim>\<open>iitii\<close>)
  return when their assertions hold.\<close>

definition leftmost_rank :: "nat \<Rightarrow> nat" where
  "leftmost_rank subtree = (let k = trailing_ones subtree; ofs = 2 ^ k - 1 in subtree - ofs)"

definition rightmost_rank :: "nat \<Rightarrow> nat" where
  "rightmost_rank subtree = (let k = trailing_ones subtree; ofs = 2 ^ k - 1 in subtree + ofs)"

lemma leftmost_rank_nd: "leftmost_rank (nd k j) = 2 ^ (k + 1) * j"
proof -
  have "leftmost_rank (nd k j) = nd k j - below k"
    by (simp add: leftmost_rank_def trailing_ones_nd below_eq)
  also have "\<dots> = 2 ^ (k + 1) * j" by (subst nd_below) simp
  finally show ?thesis .
qed

lemma rightmost_rank_nd: "rightmost_rank (nd k j) = 2 ^ (k + 1) * j + 2 * below k"
proof -
  have "rightmost_rank (nd k j) = nd k j + below k"
    by (simp add: rightmost_rank_def trailing_ones_nd below_eq)
  also have "\<dots> = 2 ^ (k + 1) * j + 2 * below k" by (subst nd_below) simp
  finally show ?thesis .
qed

lemma in_subtree_nd:
  "in_subtree (nd k j) m \<longleftrightarrow> 2 ^ (k + 1) * j \<le> m \<and> m \<le> 2 ^ (k + 1) * j + 2 * below k"
proof (induction k arbitrary: j)
  case 0
  show ?case by (subst in_subtree.simps) (auto simp: left_child_nd_0[simplified] right_child_nd_0[simplified])
next
  case (Suc k)
  define P :: nat where "P = 2 ^ (k + 1)"
  define a where "a = P * j"
  define b where "b = below k"
  have P: "P = 2 * b + 2" using Suc_below[of "k + 1"] by (simp add: P_def b_def)
  have l: "in_subtree (nd k (2 * j)) m \<longleftrightarrow> 2 * a \<le> m \<and> m \<le> 2 * a + 2 * b"
    unfolding Suc by (simp add: P_def a_def b_def algebra_simps)
  have r: "in_subtree (nd k (2 * j + 1)) m \<longleftrightarrow> 2 * a + P \<le> m \<and> m \<le> 2 * a + P + 2 * b"
    unfolding Suc by (simp add: P_def a_def b_def algebra_simps)
  have n: "nd (Suc k) j = 2 * a + 2 * b + 1"
    by (subst nd_below) (simp add: P_def a_def b_def algebra_simps)
  have g: "2 ^ (Suc k + 1) * j = 2 * a" "below (Suc k) = 2 * b + 1"
    by (simp_all add: P_def a_def b_def)
  have "in_subtree (nd (Suc k) j) m \<longleftrightarrow>
      m = nd (Suc k) j \<or> in_subtree (nd k (2 * j)) m \<or> in_subtree (nd k (2 * j + 1)) m"
    by (subst in_subtree.simps) (simp only: left_child_nd_Suc right_child_nd_Suc rank.case)
  also have "\<dots> \<longleftrightarrow> 2 * a \<le> m \<and> m \<le> 2 * a + 2 * (2 * b + 1)"
    unfolding l r n using P by arith
  finally show ?case unfolding g .
qed

lemma in_subtree_iff:
  "in_subtree n m \<longleftrightarrow> leftmost_rank n \<le> m \<and> m \<le> rightmost_rank n"
proof -
  obtain j where "n = nd (trailing_ones n) j" using nd_trailing_ones by blast
  then show ?thesis
    using in_subtree_nd[of "trailing_ones n" j m] leftmost_rank_nd[of "trailing_ones n" j]
      rightmost_rank_nd[of "trailing_ones n" j] by simp
qed

subsection \<open>Segments of the node array\<close>

text \<open>\<open>seg xs a b\<close> holds the elements of \<open>xs\<close> at the ranks \<open>a \<le> m < b\<close> that exist.\<close>

definition seg :: "'x list \<Rightarrow> nat \<Rightarrow> nat \<Rightarrow> 'x list" where
  "seg xs a b = map (nth xs) [a..<min b (length xs)]"

lemma seg_append: "a \<le> b \<Longrightarrow> b \<le> c \<Longrightarrow> seg xs a c = seg xs a b @ seg xs b c"
proof -
  assume ab: "a \<le> b" and bc: "b \<le> c"
  show ?thesis
  proof (cases "b \<le> length xs")
    case True
    then have "[a..<min c (length xs)] = [a..<b] @ [b..<min c (length xs)]"
      using ab bc by (metis le_iff_add min.boundedI upt_add_eq_append)
    then show ?thesis using True by (simp add: seg_def min_absorb1)
  next
    case False
    then show ?thesis using bc by (simp add: seg_def min_absorb2)
  qed
qed

lemma seg_single: "n < length xs \<Longrightarrow> seg xs n (Suc n) = [xs ! n]"
  by (simp add: seg_def min_absorb1)

lemma seg_beyond: "length xs \<le> a \<Longrightarrow> seg xs a b = []"
  by (simp add: seg_def)

lemma seg_empty: "b \<le> a \<Longrightarrow> seg xs a b = []"
  by (simp add: seg_def)

lemma seg_all: "length xs \<le> b \<Longrightarrow> seg xs 0 b = xs"
  by (simp add: seg_def min_absorb2 map_nth)

lemma seg_clip: "length xs \<le> b \<Longrightarrow> length xs \<le> c \<Longrightarrow> seg xs a b = seg xs a c"
  by (simp add: seg_def min_absorb2)

lemma set_seg: "set (seg xs a b) = {xs ! m | m. a \<le> m \<and> m < b \<and> m < length xs}"
  by (auto simp: seg_def)

lemma seg_split:
  assumes "a \<le> n" "n < b" "n < length xs"
  shows "seg xs a b = seg xs a n @ xs ! n # seg xs (Suc n) b"
proof -
  have "seg xs a b = seg xs a n @ seg xs n b" using assms by (intro seg_append) simp_all
  also have "seg xs n b = seg xs n (Suc n) @ seg xs (Suc n) b"
    using assms by (intro seg_append) simp_all
  finally show ?thesis using assms by (simp add: seg_single)
qed

text \<open>The ranks of the subtree of \<open>nd k j\<close> are those from \<open>2 ^ (k + 1) * j\<close> up to, but not
  including, \<open>2 ^ (k + 1) * j + below (Suc k)\<close>.\<close>

definition sub :: "'x list \<Rightarrow> nat \<Rightarrow> nat \<Rightarrow> 'x list" where
  "sub xs k j = seg xs (2 ^ (k + 1) * j) (2 ^ (k + 1) * j + below (Suc k))"

lemma sub_0: "sub xs 0 j = (if 2 * j < length xs then [xs ! (2 * j)] else [])"
  by (simp add: sub_def seg_single seg_beyond)

lemma sub_Suc_real:
  assumes "nd (Suc k) j < length xs"
  shows "sub xs (Suc k) j = sub xs k (2 * j) @ xs ! nd (Suc k) j # sub xs k (2 * j + 1)"
proof -
  define a where "a = 2 ^ (k + 1) * (2 * j)"
  define b where "b = below k"
  have P: "2 ^ (k + 1) = 2 * b + 2" using Suc_below[of "k + 1"] by (simp add: b_def)
  have n: "nd (Suc k) j = a + (2 * b + 1)"
    by (subst nd_below) (simp add: a_def b_def algebra_simps)
  have "2 ^ (Suc k + 1) * j = a" "below (Suc (Suc k)) = 4 * b + 3"
    by (simp_all add: a_def b_def)
  then have 1: "sub xs (Suc k) j = seg xs a (a + (4 * b + 3))"
    by (simp only: sub_def)
  have 2: "sub xs k (2 * j) = seg xs a (a + (2 * b + 1))"
    by (simp add: sub_def a_def b_def)
  have "2 ^ (k + 1) * (2 * j + 1) = Suc (a + (2 * b + 1))"
    using P by (simp add: a_def algebra_simps)
  moreover have "Suc (a + (2 * b + 1)) + below (Suc k) = a + (4 * b + 3)"
    by (simp add: b_def)
  ultimately have 3: "sub xs k (2 * j + 1) = seg xs (Suc (a + (2 * b + 1))) (a + (4 * b + 3))"
    by (simp only: sub_def)
  show ?thesis unfolding 1 2 3 n using assms[unfolded n]
    by (intro seg_split) simp_all
qed

lemma sub_Suc_imaginary:
  assumes "length xs \<le> nd (Suc k) j"
  shows "sub xs (Suc k) j = sub xs k (2 * j)"
proof -
  define a where "a = 2 ^ (k + 1) * (2 * j)"
  define b where "b = below k"
  have n: "nd (Suc k) j = a + (2 * b + 1)"
    by (subst nd_below) (simp add: a_def b_def algebra_simps)
  have "2 ^ (Suc k + 1) * j = a" "below (Suc (Suc k)) = 4 * b + 3"
    by (simp_all add: a_def b_def)
  then have 1: "sub xs (Suc k) j = seg xs a (a + (4 * b + 3))"
    by (simp only: sub_def)
  have 2: "sub xs k (2 * j) = seg xs a (a + (2 * b + 1))"
    by (simp add: sub_def a_def b_def)
  show ?thesis unfolding 1 2 using assms[unfolded n] by (intro seg_clip) simp_all
qed

lemma set_sub:
  "set (sub xs k j) = {xs ! m | m. m < length xs \<and> in_subtree (nd k j) m}"
proof -
  have "m < 2 ^ (k + 1) * j + below (Suc k) \<longleftrightarrow> m \<le> 2 ^ (k + 1) * j + 2 * below k" for m
    by (simp add: less_Suc_eq_le)
  then show ?thesis unfolding sub_def set_seg in_subtree_nd by auto
qed

lemma trailing_ones_left_child: "left_child n = Rank l \<Longrightarrow> trailing_ones l < trailing_ones n"
proof -
  assume a: "left_child n = Rank l"
  obtain j where j: "n = nd (trailing_ones n) j" using nd_trailing_ones by blast
  show ?thesis
  proof (cases "trailing_ones n")
    case 0
    then show ?thesis using a by (simp add: left_child_def)
  next
    case (Suc k)
    then have "left_child n = Rank (nd k (2 * j))" using j left_child_nd_Suc[of k j] by simp
    then show ?thesis using a Suc by (auto simp: trailing_ones_nd)
  qed
qed

lemma trailing_ones_right_child: "right_child n = Rank r \<Longrightarrow> trailing_ones r < trailing_ones n"
proof -
  assume a: "right_child n = Rank r"
  obtain j where j: "n = nd (trailing_ones n) j" using nd_trailing_ones by blast
  show ?thesis
  proof (cases "trailing_ones n")
    case 0
    then show ?thesis using a by (simp add: right_child_def)
  next
    case (Suc k)
    then have "right_child n = Rank (nd k (2 * j + 1))" using j right_child_nd_Suc[of k j] by simp
    then show ?thesis using a Suc by (auto simp: trailing_ones_nd)
  qed
qed

subsection \<open>The top-down scan and the overlap query of the base class\<close>

text \<open>
  \<^verbatim>\<open>scan\<close> appends to the output parameter \<^verbatim>\<open>ans\<close> and returns the number of nodes
  visited; the model returns both, or \<open>None\<close> when \<^verbatim>\<open>assert(subtree < full_size)\<close> or the
  assertion of \<^verbatim>\<open>level\<close> in \<^verbatim>\<open>left\<close> and \<^verbatim>\<open>right\<close> fails.
\<close>

function scan ::
  "bool \<Rightarrow> ('a \<Rightarrow> 'p::linorder) \<Rightarrow> ('a \<Rightarrow> 'p)
     \<Rightarrow> (('p, 'a, 'm) iit_node_base_scheme, 'z) iit_base_scheme
     \<Rightarrow> rank \<Rightarrow> 'p \<Rightarrow> 'p \<Rightarrow> 'a list \<Rightarrow> (nat \<times> 'a list) option" where
  "scan ndebug gb ge t nrank qbeg qend ans = Some (0, ans)"
| "scan ndebug gb ge t (Rank subtree) qbeg qend ans =
     (if \<not> (ndebug \<or> subtree < full_size t) then None
      else if subtree \<ge> length (nodes t) then
        (case left ndebug t subtree of None \<Rightarrow> None
         | Some l \<Rightarrow>
             (case scan ndebug gb ge t l qbeg qend ans of None \<Rightarrow> None
              | Some (c, ans1) \<Rightarrow> Some (1 + c, ans1)))
      else
        let n = nodes t ! subtree in
        if inside_max_end n > qbeg then
          (case left ndebug t subtree of None \<Rightarrow> None
           | Some l \<Rightarrow>
               (case scan ndebug gb ge t l qbeg qend ans of None \<Rightarrow> None
                | Some (c1, ans1) \<Rightarrow>
                    let nbeg = gb (item n) in
                    if nbeg < qend then
                      let ans2 = (if ge (item n) > qbeg then ans1 @ [item n] else ans1)
                      in (case right ndebug t subtree of None \<Rightarrow> None
                          | Some r \<Rightarrow>
                              (case scan ndebug gb ge t r qbeg qend ans2 of None \<Rightarrow> None
                               | Some (c2, ans3) \<Rightarrow> Some (1 + c1 + c2, ans3)))
                    else Some (1 + c1, ans1)))
        else Some (1, ans))"
  by pat_completeness auto
termination
  by (relation "measure (\<lambda>(ndebug, gb, ge, t, s, qbeg, qend, ans).
          case s of nrank \<Rightarrow> 0 | Rank n \<Rightarrow> Suc (trailing_ones n))")
     (auto simp: left_eq right_eq split: rank.splits if_splits
           dest: trailing_ones_left_child trailing_ones_right_child)

text \<open>\<^verbatim>\<open>overlap\<close> clears \<^verbatim>\<open>ans\<close> and scans from the root.\<close>

definition overlap ::
  "bool \<Rightarrow> ('a \<Rightarrow> 'p::linorder) \<Rightarrow> ('a \<Rightarrow> 'p)
     \<Rightarrow> (('p, 'a, 'm) iit_node_base_scheme, 'z) iit_base_scheme
     \<Rightarrow> 'p \<Rightarrow> 'p \<Rightarrow> (nat \<times> 'a list) option" where
  "overlap ndebug gb ge t qbeg qend = scan ndebug gb ge t (Rank (root t)) qbeg qend []"

subsection \<open>Construction\<close>

text \<open>The \<^verbatim>\<open>for\<close> loop that computes \<^verbatim>\<open>root_level\<close> and \<^verbatim>\<open>full_size\<close>, started at
  \<open>(0, 0)\<close>.\<close>

function tree_geometry :: "nat \<Rightarrow> nat \<Rightarrow> nat \<Rightarrow> nat \<times> nat" where
  "tree_geometry sz rl fs =
     (if fs < sz then tree_geometry sz (rl + 1) (2 ^ (rl + 1 + 1) - 1) else (rl, fs))"
  by pat_completeness auto
termination
proof (relation "measure (\<lambda>(sz, rl, fs). (Suc sz - 2 ^ (rl + 1)) + (if fs < sz then 1 else 0))",
    goal_cases)
  case 1
  show ?case by simp
next
  case (2 sz rl fs)
  have lt: "(2::nat) ^ (rl + 1) < 2 ^ (rl + 1 + 1)" by simp
  show ?case
  proof (cases "2 ^ (rl + 1 + 1) - 1 < sz")
    case True
    then have "(2::nat) ^ (rl + 1 + 1) < Suc sz" by linarith
    then have "Suc sz - 2 ^ (rl + 1 + 1) < Suc sz - (2::nat) ^ (rl + 1)"
      using lt by (intro diff_less_mono2) linarith+
    then show ?thesis using 2 True by simp
  next
    case False
    have "Suc sz - 2 ^ (rl + 1 + 1) \<le> Suc sz - (2::nat) ^ (rl + 1)"
      using lt by (intro diff_le_mono2) linarith
    then show ?thesis using 2 False by simp
  qed
qed

text \<open>The \<^verbatim>\<open>while\<close> loop that memoizes the path from the rightmost real leaf to the
  root. \<^verbatim>\<open>parent\<close> returns \<^verbatim>\<open>nrank\<close> at the root only, where the loop has stopped.\<close>

partial_function (option) right_border_loop ::
  "bool \<Rightarrow> ('n, 'z) iit_base_scheme \<Rightarrow> nat list \<Rightarrow> nat list option" where
  "right_border_loop ndebug t rbn =
     (if last rbn \<noteq> root t
      then (case parent ndebug t (last rbn) of None \<Rightarrow> None
            | Some nrank \<Rightarrow> None
            | Some (Rank p) \<Rightarrow> right_border_loop ndebug t (rbn @ [p]))
      else Some rbn)"

declare right_border_loop.simps [code]

text \<open>The body of the inner \<^verbatim>\<open>for\<close> loop of the constructor, on the state
  (\<^verbatim>\<open>nodes\<close>, \<^verbatim>\<open>right_border_ime\<close>). \<open>None\<close> is a failed assertion, of \<^verbatim>\<open>level\<close> or
  \<^verbatim>\<open>assert(ime != Node::npos)\<close>, or a read of the node vector or of
  \<^verbatim>\<open>right_border_nodes\<close> outside its bounds. \<^verbatim>\<open>nrank\<close> is the greatest \<^verbatim>\<open>size_t\<close> and so not
  below \<^verbatim>\<open>nodes.size()\<close>.\<close>

definition index_node ::
  "bool \<Rightarrow> ('a \<Rightarrow> 'p::{linorder, order_top}) \<Rightarrow> ('n, 'z) iit_base_scheme \<Rightarrow> nat list \<Rightarrow> nat \<Rightarrow> nat
     \<Rightarrow> ('p, 'a, 'm) iit_node_base_scheme list \<times> 'p
     \<Rightarrow> (('p, 'a, 'm) iit_node_base_scheme list \<times> 'p) option" where
  "index_node ndebug ge t right_border_nodes lv n st =
     (case st of (ns, right_border_ime) \<Rightarrow>
        (case left ndebug t n of None \<Rightarrow> None | Some nrank \<Rightarrow> None
         | Some (Rank l) \<Rightarrow>
        (case right ndebug t n of None \<Rightarrow> None
         | Some r \<Rightarrow>
           if \<not> (l < length ns \<and> lv < length right_border_nodes) then None
           else
             let ime0 = ge (item (ns ! n));
                 ime1 = max ime0 (inside_max_end (ns ! l));
                 ime = (case r of
                          Rank r' \<Rightarrow> if r' < length ns then max ime1 (inside_max_end (ns ! r'))
                                     else max ime1 right_border_ime
                        | nrank \<Rightarrow> max ime1 right_border_ime)
             in if \<not> (ndebug \<or> ime \<noteq> top) then None
                else Some (ns[n := (ns ! n)\<lparr>inside_max_end := ime\<rparr>],
                           if n = right_border_nodes ! lv then ime else right_border_ime))))"

lemma index_node_length:
  "index_node ndebug ge t rbn lv n st = Some st' \<Longrightarrow> length (fst st') = length (fst st)"
  by (auto simp: index_node_def Let_def split: prod.splits option.splits rank.splits if_splits)

text \<open>The inner loop over the nodes of level \<open>lv\<close>, from rank \<open>n\<close> on.\<close>

function index_level ::
  "bool \<Rightarrow> ('a \<Rightarrow> 'p::{linorder, order_top}) \<Rightarrow> ('n, 'z) iit_base_scheme \<Rightarrow> nat list \<Rightarrow> nat \<Rightarrow> nat
     \<Rightarrow> ('p, 'a, 'm) iit_node_base_scheme list \<times> 'p
     \<Rightarrow> (('p, 'a, 'm) iit_node_base_scheme list \<times> 'p) option" where
  "index_level ndebug ge t right_border_nodes lv n st =
     (if n < length (fst st) then
        (case index_node ndebug ge t right_border_nodes lv n st of None \<Rightarrow> None
         | Some st' \<Rightarrow> index_level ndebug ge t right_border_nodes lv (n + 2 ^ (lv - 1) * 4) st')
      else Some st)"
  by pat_completeness auto
termination
proof (relation "measure (\<lambda>(ndebug, ge, t, rbn, lv, n, st). length (fst st) - n)", goal_cases)
  case 1
  show ?case by simp
next
  case (2 ndebug ge t rbn lv n st st')
  have "length (fst st) - (n + 2 ^ (lv - 1) * 4) < length (fst st) - n"
    using 2(1) by (intro diff_less_mono2) simp_all
  then show ?case using index_node_length[OF 2(2)] by simp
qed

text \<open>The outer loop over the levels, from level \<open>lv\<close> on.\<close>

function index_levels ::
  "bool \<Rightarrow> ('a \<Rightarrow> 'p::{linorder, order_top}) \<Rightarrow> ('n, 'z) iit_base_scheme \<Rightarrow> nat list \<Rightarrow> nat \<Rightarrow> nat
     \<Rightarrow> ('p, 'a, 'm) iit_node_base_scheme list \<times> 'p
     \<Rightarrow> (('p, 'a, 'm) iit_node_base_scheme list \<times> 'p) option" where
  "index_levels ndebug ge t right_border_nodes rl lv st =
     (if lv \<le> rl then
        (case index_level ndebug ge t right_border_nodes lv (2 ^ (lv - 1) * 2 - 1) st of
           None \<Rightarrow> None
         | Some st' \<Rightarrow> index_levels ndebug ge t right_border_nodes rl (lv + 1) st')
      else Some st)"
  by pat_completeness auto
termination
  by (relation "measure (\<lambda>(ndebug, ge, t, rbn, rl, lv, st). Suc rl - lv)") auto

text \<open>The constructor of \<^verbatim>\<open>iit_base\<close>.\<close>

definition iit_base_ctor ::
  "bool \<Rightarrow> ('a \<Rightarrow> 'p::{linorder, order_top}) \<Rightarrow> ('a \<Rightarrow> 'p)
     \<Rightarrow> ('p, 'a, 'm) iit_node_base_scheme list
     \<Rightarrow> ('p, 'a, 'm) iit_node_base_scheme iit_base option" where
  "iit_base_ctor ndebug gb ge nodes_in =
     (case tree_geometry (length nodes_in) 0 0 of (rl, fs) \<Rightarrow>
        let t = \<lparr>nodes = nodes_in, full_size = fs, root = 2 ^ rl - 1, root_level = rl\<rparr>
        in if length (nodes t) \<noteq> 0 then
             let t = t\<lparr>nodes := std_sort (node_less gb ge) (nodes t)\<rparr> in
             (case right_border_loop ndebug t [length (nodes t) - (2 - length (nodes t) mod 2)] of
                None \<Rightarrow> None
              | Some right_border_nodes \<Rightarrow>
                  (case index_levels ndebug ge t right_border_nodes (root_level t) 1
                          (nodes t, inside_max_end (nodes t ! (right_border_nodes ! 0))) of
                     None \<Rightarrow> None
                   | Some (ns, right_border_ime) \<Rightarrow> Some (t\<lparr>nodes := ns\<rparr>)))
           else Some t)"

subsection \<open>Builder\<close>

text \<open>\<^verbatim>\<open>build\<close> passes the buffer \<^verbatim>\<open>nodes_\<close> by reference to the constructor of the index,
  which moves it out: the builder is left with an empty buffer. \<open>build\<close> returns the result
  of the constructor and the builder.\<close>

record 'n iit_builder_base =
  builder_nodes :: "'n list"

definition builder_empty :: "'n iit_builder_base" where
  "builder_empty = \<lparr>builder_nodes = []\<rparr>"

definition add :: "('a \<Rightarrow> 'n) \<Rightarrow> 'n iit_builder_base \<Rightarrow> 'a \<Rightarrow> 'n iit_builder_base" where
  "add mk_node b it = b\<lparr>builder_nodes := builder_nodes b @ [mk_node it]\<rparr>"

definition add_range ::
  "('a \<Rightarrow> 'n) \<Rightarrow> 'n iit_builder_base \<Rightarrow> 'a list \<Rightarrow> 'n iit_builder_base" where
  "add_range mk_node b its = fold (\<lambda>it b. add mk_node b it) its b"

definition builder_of_range :: "('a \<Rightarrow> 'n) \<Rightarrow> 'a list \<Rightarrow> 'n iit_builder_base" where
  "builder_of_range mk_node its = add_range mk_node builder_empty its"

definition build :: "('n list \<Rightarrow> 't) \<Rightarrow> 'n iit_builder_base \<Rightarrow> 't \<times> 'n iit_builder_base" where
  "build ctor b = (ctor (builder_nodes b), b\<lparr>builder_nodes := []\<rparr>)"

definition iit_build ::
  "bool \<Rightarrow> ('a \<Rightarrow> 'p::{linorder, order_top}) \<Rightarrow> ('a \<Rightarrow> 'p) \<Rightarrow> 'a list
     \<Rightarrow> ('p, 'a) iit_node_base iit_base option" where
  "iit_build ndebug gb ge its =
     fst (build (iit_base_ctor ndebug gb ge) (builder_of_range (iit_node_base_ctor ge) its))"

declare bot_word_eq [code] top_word_eq [code]

subsection \<open>Correctness of the scan\<close>

text \<open>An item overlaps the query \<open>[qbeg, qend)\<close>.\<close>

definition overlaps :: "('a \<Rightarrow> 'p::linorder) \<Rightarrow> ('a \<Rightarrow> 'p) \<Rightarrow> 'p \<Rightarrow> 'p \<Rightarrow> 'a \<Rightarrow> bool" where
  "overlaps gb ge qbeg qend x \<longleftrightarrow> ge x > qbeg \<and> gb x < qend"

text \<open>The two facts about the node array that the scan relies on: the nodes are in the
  order of their begin positions, and \<^verbatim>\<open>inside_max_end\<close> of a real node bounds the end
  positions of the real nodes of its subtree.\<close>

definition beg_sorted :: "('a \<Rightarrow> 'p::linorder) \<Rightarrow> ('p, 'a, 'm) iit_node_base_scheme list \<Rightarrow> bool" where
  "beg_sorted gb ns \<longleftrightarrow> sorted (map (\<lambda>n. gb (item n)) ns)"

definition ime_bounds :: "('a \<Rightarrow> 'p::linorder) \<Rightarrow> ('p, 'a, 'm) iit_node_base_scheme list \<Rightarrow> bool" where
  "ime_bounds ge ns \<longleftrightarrow>
     (\<forall>k j. nd k j < length ns \<longrightarrow>
        (\<forall>x \<in> set (sub ns k j). ge (item x) \<le> inside_max_end (ns ! nd k j)))"

declare scan.simps [simp del]
declare nd.simps(2) [simp del]

lemma sub_right_ranks:
  assumes "x \<in> set (sub xs k (2 * j + 1))"
  shows "\<exists>m. x = xs ! m \<and> nd (Suc k) j < m \<and> m < length xs"
proof -
  have "2 ^ (k + 1) * (2 * j + 1) = Suc (nd (Suc k) j)"
    unfolding Suc_nd by simp
  then show ?thesis using assms unfolding sub_def set_seg by auto
qed

lemma sub_self: "nd k j < length xs \<Longrightarrow> xs ! nd k j \<in> set (sub xs k j)"
  unfolding sub_def set_seg nd_below by auto

lemma scan_Rank:
  assumes "ndebug \<or> n < full_size t"
  shows "scan ndebug gb ge t (Rank n) qbeg qend ans =
     (if n \<ge> length (nodes t) then
        (case scan ndebug gb ge t (left_child n) qbeg qend ans of None \<Rightarrow> None
         | Some (c, ans1) \<Rightarrow> Some (1 + c, ans1))
      else
        if inside_max_end (nodes t ! n) > qbeg then
          (case scan ndebug gb ge t (left_child n) qbeg qend ans of None \<Rightarrow> None
           | Some (c1, ans1) \<Rightarrow>
               if gb (item (nodes t ! n)) < qend then
                 (case scan ndebug gb ge t (right_child n) qbeg qend
                         (if ge (item (nodes t ! n)) > qbeg then ans1 @ [item (nodes t ! n)]
                          else ans1) of
                    None \<Rightarrow> None
                  | Some (c2, ans3) \<Rightarrow> Some (1 + c1 + c2, ans3))
               else Some (1 + c1, ans1))
        else Some (1, ans))"
  using assms
  by (subst scan.simps(2)) (auto simp: left_eq right_eq Let_def split: option.splits)

lemma scan_sub:
  assumes s: "beg_sorted gb (nodes t)" and b: "ime_bounds ge (nodes t)"
    and fs: "full_size t = below (Suc rl)"
  shows "k \<le> rl \<Longrightarrow> j < 2 ^ (rl - k) \<Longrightarrow>
         map_option snd (scan ndebug gb ge t (Rank (nd k j)) qbeg qend ans) =
           Some (ans @ filter (overlaps gb ge qbeg qend) (map item (sub (nodes t) k j)))"
proof (induction k arbitrary: j ans)
  case 0
  have a: "ndebug \<or> nd 0 j < full_size t"
    using in_tree_nd[of 0 rl j] 0 fs by simp
  show ?case
  proof (cases "nd 0 j < length (nodes t)")
    case False
    then show ?thesis
      by (subst scan_Rank[OF a]) (simp add: left_child_nd_0[simplified] scan.simps(1) sub_0)
  next
    case True
    have "ge (item (nodes t ! nd 0 j)) \<le> inside_max_end (nodes t ! nd 0 j)"
      using b True sub_self[OF True] unfolding ime_bounds_def by blast
    then show ?thesis using True
      by (subst scan_Rank[OF a])
        (auto simp: left_child_nd_0[simplified] right_child_nd_0[simplified] scan.simps(1) sub_0
           overlaps_def)
  qed
next
  case (Suc k)
  let ?n = "nd (Suc k) j"
  let ?P = "overlaps gb ge qbeg qend"
  have a: "ndebug \<or> ?n < full_size t"
    using in_tree_nd[of "Suc k" rl j] Suc.prems fs by simp
  have k: "k \<le> rl" using Suc.prems by simp
  have "(2::nat) ^ (rl - k) = 2 * 2 ^ (rl - Suc k)"
    using Suc.prems(1) by (simp add: Suc_diff_Suc flip: power_Suc)
  then have jl: "2 * j < 2 ^ (rl - k)" and jr: "2 * j + 1 < 2 ^ (rl - k)"
    using Suc.prems(2) by linarith+
  note IHl = Suc.IH[OF k jl]
  note IHr = Suc.IH[OF k jr]
  show ?case
  proof (cases "?n < length (nodes t)")
    case False
    then have "sub (nodes t) (Suc k) j = sub (nodes t) k (2 * j)"
      by (intro sub_Suc_imaginary) simp
    then show ?thesis using False IHl[of ans]
      by (subst scan_Rank[OF a]) (auto simp add: left_child_nd_Suc split: option.splits)
  next
    case True
    note split = sub_Suc_real[OF True]
    have bound: "ge (item x) \<le> inside_max_end (nodes t ! ?n)"
      if "x \<in> set (sub (nodes t) (Suc k) j)" for x
      using b True that unfolding ime_bounds_def by blast
    show ?thesis
    proof (cases "inside_max_end (nodes t ! ?n) > qbeg")
      case False
      then have "\<not> ?P (item x)" if "x \<in> set (sub (nodes t) (Suc k) j)" for x
        using bound[OF that] by (auto simp: overlaps_def)
      then have "filter ?P (map item (sub (nodes t) (Suc k) j)) = []"
        by (auto simp: filter_empty_conv)
      then show ?thesis using True False by (subst scan_Rank[OF a]) simp
    next
      case ime: True
      obtain c1 ans1 where
        l: "scan ndebug gb ge t (Rank (nd k (2 * j))) qbeg qend ans = Some (c1, ans1)"
        and ans1: "ans1 = ans @ filter ?P (map item (sub (nodes t) k (2 * j)))"
        using IHl[of ans] by auto
      show ?thesis
      proof (cases "gb (item (nodes t ! ?n)) < qend")
        case False
        have "\<not> ?P (item x)" if xin: "x \<in> set (sub (nodes t) k (2 * j + 1))" for x
        proof -
          obtain m where m: "x = nodes t ! m" "?n < m" "m < length (nodes t)"
            using sub_right_ranks[OF xin] by blast
          have "gb (item (nodes t ! ?n)) \<le> gb (item (nodes t ! m))"
            using s m sorted_nth_mono[of "map (\<lambda>n. gb (item n)) (nodes t)" ?n m]
            by (simp add: beg_sorted_def)
          then show ?thesis using False m by (auto simp: overlaps_def)
        qed
        then have "filter ?P (map item (sub (nodes t) k (2 * j + 1))) = []"
          by (auto simp: filter_empty_conv)
        moreover have "\<not> ?P (item (nodes t ! ?n))" using False by (simp add: overlaps_def)
        ultimately show ?thesis using True ime False l ans1
          by (subst scan_Rank[OF a]) (simp add: left_child_nd_Suc split)
      next
        case beg: True
        define ans2 where
          "ans2 = (if ge (item (nodes t ! ?n)) > qbeg then ans1 @ [item (nodes t ! ?n)] else ans1)"
        have ans2: "ans2 = ans1 @ filter ?P [item (nodes t ! ?n)]"
          using beg by (simp add: ans2_def overlaps_def)
        obtain c2 ans3 where
          r: "scan ndebug gb ge t (Rank (nd k (2 * j + 1))) qbeg qend ans2 = Some (c2, ans3)"
          and ans3: "ans3 = ans2 @ filter ?P (map item (sub (nodes t) k (2 * j + 1)))"
          using IHr[of ans2] by auto
        have "scan ndebug gb ge t (Rank ?n) qbeg qend ans = Some (1 + c1 + c2, ans3)"
          using True ime beg l r[unfolded ans2_def]
          by (subst scan_Rank[OF a]) (simp add: left_child_nd_Suc right_child_nd_Suc)
        then show ?thesis unfolding ans3 ans2 ans1 split by simp
      qed
    qed
  qed
qed

subsection \<open>The geometry computed by the constructor\<close>

declare tree_geometry.simps [simp del]

lemma tree_geometry_below:
  "fs = below (Suc rl) \<Longrightarrow> tree_geometry sz rl fs = (rl', fs') \<Longrightarrow>
     fs' = below (Suc rl') \<and> sz \<le> fs' \<and> rl \<le> rl' \<and> (rl' = rl \<or> below rl' < sz)"
proof (induction sz rl fs rule: tree_geometry.induct)
  case (1 sz rl fs)
  show ?case
  proof (cases "fs < sz")
    case False
    then show ?thesis using "1.prems" by (subst (asm) tree_geometry.simps) auto
  next
    case True
    have e: "2 ^ (rl + 1 + 1) - 1 = below (Suc (rl + 1))"
      by (simp add: below_eq)
    have "tree_geometry sz (rl + 1) (2 ^ (rl + 1 + 1) - 1) = (rl', fs')"
      using "1.prems"(2) True by (subst (asm) tree_geometry.simps) simp
    from "1.IH"[OF True e this] show ?thesis using True "1.prems"(1) by auto
  qed
qed

lemma tree_geometry_empty: "tree_geometry 0 0 0 = (0, 0)"
  by (subst tree_geometry.simps) simp

lemma tree_geometry_nonempty:
  assumes "0 < sz" "tree_geometry sz 0 0 = (rl, fs)"
  shows "fs = below (Suc rl) \<and> sz \<le> fs \<and> 1 \<le> rl \<and> (rl = 1 \<or> below rl < sz)"
proof -
  have "tree_geometry sz 1 (below (Suc 1)) = (rl, fs)"
    using assms by (subst (asm) tree_geometry.simps) simp
  from tree_geometry_below[OF refl this] show ?thesis by auto
qed

subsection \<open>The sort\<close>

definition node_le ::
  "('a \<Rightarrow> 'p::linorder) \<Rightarrow> ('a \<Rightarrow> 'p) \<Rightarrow> ('p, 'a, 'm) iit_node_base_scheme
     \<Rightarrow> ('p, 'a, 'm) iit_node_base_scheme \<Rightarrow> bool" where
  "node_le gb ge a b \<longleftrightarrow>
     gb (item a) < gb (item b) \<or> (gb (item a) = gb (item b) \<and> ge (item a) \<le> ge (item b))"

lemma node_le_iff: "node_le gb ge a b \<longleftrightarrow> \<not> node_less gb ge b a"
  by (auto simp: node_le_def node_less_def Let_def)

lemma node_le_trans: "node_le gb ge a b \<Longrightarrow> node_le gb ge b c \<Longrightarrow> node_le gb ge a c"
  by (auto simp: node_le_def)

lemma node_less_le: "node_less gb ge a b \<Longrightarrow> node_le gb ge a b"
  by (auto simp: node_le_def node_less_def Let_def split: if_splits)

lemma set_sort_insert: "set (sort_insert lt x ys) = insert x (set ys)"
  by (induction ys) auto

lemma mset_sort_insert: "mset (sort_insert lt x ys) = add_mset x (mset ys)"
  by (induction ys) auto

lemma sorted_sort_insert:
  "sorted_wrt (node_le gb ge) ys \<Longrightarrow>
   sorted_wrt (node_le gb ge) (sort_insert (node_less gb ge) x ys)"
proof (induction ys)
  case Nil
  show ?case by simp
next
  case (Cons y ys)
  show ?case
  proof (cases "node_less gb ge x y")
    case True
    then have "node_le gb ge x y" by (rule node_less_le)
    then have "node_le gb ge x z" if "z \<in> set ys" for z
      using Cons.prems that node_le_trans by fastforce
    then show ?thesis using True Cons.prems \<open>node_le gb ge x y\<close> by auto
  next
    case False
    then have "node_le gb ge y x" by (simp add: node_le_iff)
    then show ?thesis using False Cons by (auto simp: set_sort_insert)
  qed
qed

lemma mset_fold_sort_insert:
  "mset (fold (sort_insert lt) xs acc) = mset xs + mset acc"
  by (induction xs arbitrary: acc) (simp_all add: mset_sort_insert)

lemma sorted_fold_sort_insert:
  "sorted_wrt (node_le gb ge) acc \<Longrightarrow>
   sorted_wrt (node_le gb ge) (fold (sort_insert (node_less gb ge)) xs acc)"
  by (induction xs arbitrary: acc) (simp_all add: sorted_sort_insert)

lemma mset_std_sort: "mset (std_sort lt xs) = mset xs"
  by (simp add: std_sort_def mset_fold_sort_insert)

lemma sorted_std_sort: "sorted_wrt (node_le gb ge) (std_sort (node_less gb ge) xs)"
  by (simp add: std_sort_def sorted_fold_sort_insert)

lemma length_std_sort: "length (std_sort lt xs) = length xs"
  using mset_std_sort[of lt xs] by (metis size_mset)

lemma set_std_sort: "set (std_sort lt xs) = set xs"
  using mset_std_sort[of lt xs] by (metis set_mset_mset)

lemma node_le_beg_sorted:
  "sorted_wrt (node_le gb ge) ns \<Longrightarrow> beg_sorted gb ns"
proof -
  assume "sorted_wrt (node_le gb ge) ns"
  then have "sorted_wrt (\<lambda>a b. gb (item a) \<le> gb (item b)) ns"
    by (rule sorted_wrt_mono_rel[rotated]) (auto simp: node_le_def)
  then show ?thesis by (simp add: beg_sorted_def sorted_map)
qed

subsection \<open>The right border\<close>

text \<open>The ancestor at level \<open>k\<close> of the leaf of rank \<open>m\<close>.\<close>

definition border :: "nat \<Rightarrow> nat \<Rightarrow> nat" where
  "border m k = nd k (m div 2 ^ (k + 1))"

lemma border_0: "even m \<Longrightarrow> border m 0 = m"
  by (simp add: border_def)

lemma border_Suc: "nd (Suc k) ((m div 2 ^ (k + 1)) div 2) = border m (Suc k)"
proof -
  have "(m div 2 ^ (k + 1)) div 2 = m div (2 ^ (k + 1) * 2)" by (rule div_mult2_eq[symmetric])
  then show ?thesis by (simp add: border_def)
qed

lemma border_root: "m < below (Suc rl) \<Longrightarrow> border m rl = nd rl 0"
proof -
  assume "m < below (Suc rl)"
  then have "m < 2 ^ (rl + 1)" using Suc_below[of "Suc rl"] by simp
  then show ?thesis by (simp add: border_def)
qed

lemma border_in_tree:
  assumes m: "m < below (Suc rl)" and c: "c \<le> rl"
  shows "border m c < below (Suc rl)"
proof -
  have e: "(2::nat) ^ (rl + 1) = 2 ^ (rl - c) * 2 ^ (c + 1)"
    using c by (simp flip: power_add)
  have "m < 2 ^ (rl + 1)" using m Suc_below[of "Suc rl"] by simp
  then have "m < 2 ^ (rl - c) * 2 ^ (c + 1)" unfolding e .
  then have "m div 2 ^ (c + 1) < 2 ^ (rl - c)"
    by (rule less_mult_imp_div_less)
  then show ?thesis unfolding border_def using c by (intro in_tree_nd)
qed

lemma right_border_loop_from:
  assumes r: "root t = nd rl 0" and fs: "full_size t = below (Suc rl)"
    and m: "m < below (Suc rl)" and c: "c \<le> rl"
  shows "right_border_loop ndebug t (map (border m) [0..<Suc c])
           = Some (map (border m) [0..<Suc rl])"
  using c
proof (induction "rl - c" arbitrary: c)
  case 0
  then have "c = rl" by simp
  then show ?case using r border_root[OF m]
    by (subst right_border_loop.simps) simp
next
  case (Suc d)
  then have lt: "c < rl" by simp
  have ne: "border m c \<noteq> root t"
    using lt r nd_trailing_ones_eq[of c _ rl 0] by (auto simp: border_def)
  have "border m c < full_size t" using border_in_tree[OF m, of c] lt fs by simp
  then have p: "parent ndebug t (border m c) = Some (Rank (border m (Suc c)))"
    using parent_nd[of c "m div 2 ^ (c + 1)" t ndebug] ne border_Suc[of c m]
    by (simp add: border_def)
  have "right_border_loop ndebug t (map (border m) [0..<Suc c])
      = right_border_loop ndebug t (map (border m) [0..<Suc (Suc c)])"
    using ne p by (subst right_border_loop.simps) simp
  also have "\<dots> = Some (map (border m) [0..<Suc rl])"
    using Suc.hyps(1)[of "Suc c"] Suc.hyps(2) lt by simp
  finally show ?case .
qed

lemma right_border_loop_start:
  assumes "root t = nd rl 0" and "full_size t = below (Suc rl)"
    and "m < below (Suc rl)" and "even m"
  shows "right_border_loop ndebug t [m] = Some (map (border m) [0..<Suc rl])"
  using right_border_loop_from[OF assms(1,2,3), of 0] border_0[OF assms(4)] by simp

subsection \<open>The maximum over a subtree\<close>

definition smax :: "'p::linorder list \<Rightarrow> nat \<Rightarrow> nat \<Rightarrow> 'p" where
  "smax es k j = Max (set (sub es k j))"

lemma smax_0: "2 * j < length es \<Longrightarrow> smax es 0 j = es ! (2 * j)"
  by (simp add: smax_def sub_0)

lemma smax_Suc_real:
  assumes n: "nd (Suc k) j < length es" and r: "sub es k (2 * j + 1) \<noteq> []"
  shows "smax es (Suc k) j =
           max (max (es ! nd (Suc k) j) (smax es k (2 * j))) (smax es k (2 * j + 1))"
proof -
  have l: "nd k (2 * j) < length es"
    using n nd_child_less[of k j] by simp
  have "set (sub es k (2 * j)) \<noteq> {}" "set (sub es k (2 * j + 1)) \<noteq> {}"
    using sub_self[OF l] r by auto
  then show ?thesis unfolding smax_def sub_Suc_real[OF n]
    by (simp add: Max_Un max.assoc max.commute max.left_commute)
qed

lemma smax_Suc_noright:
  assumes "nd (Suc k) j < length es" and "sub es k (2 * j + 1) = []"
  shows "smax es (Suc k) j = max (es ! nd (Suc k) j) (smax es k (2 * j))"
proof -
  have l: "nd k (2 * j) < length es"
    using assms nd_child_less[of k j] by simp
  have "set (sub es k (2 * j)) \<noteq> {}"
    using sub_self[OF l] by auto
  then show ?thesis unfolding smax_def sub_Suc_real[OF assms(1)] assms(2)
    by (simp add: Max_Un max.commute)
qed

lemma smax_Suc_imaginary:
  "length es \<le> nd (Suc k) j \<Longrightarrow> smax es (Suc k) j = smax es k (2 * j)"
  by (simp add: smax_def sub_Suc_imaginary)

subsection \<open>The bottom-up indexing computes the subtree maxima\<close>

text \<open>The rank of the rightmost real leaf of \<open>sz\<close> nodes.\<close>

lemma rightmost_leaf:
  fixes sz :: nat
  assumes "0 < sz" and "m = sz - (2 - sz mod 2)"
  shows "even m" "m < sz" "sz \<le> m + 2"
  using assms by presburger+

lemma border_case:
  assumes sz: "0 < length es" and m: "m = length es - (2 - length es mod 2)"
    and n: "nd (Suc k) j < length es" and r: "length es \<le> nd k (2 * j + 1)"
  shows "m div 2 ^ (Suc k + 1) = j"
    and "max (max (es ! nd (Suc k) j) (smax es k (2 * j))) (smax es k (m div 2 ^ (k + 1)))
           = smax es (Suc k) j"
proof -
  note rl = rightmost_leaf[OF sz m]
  define b where "b = below k"
  define a where "a = 2 ^ (k + 1) * (2 * j)"
  have P: "2 ^ (k + 1) = 2 * b + 2" using Suc_below[of "k + 1"] by (simp add: b_def)
  have nn: "nd (Suc k) j = a + 2 * b + 1"
    by (subst nd_below) (simp add: a_def b_def algebra_simps)
  have Q: "2 ^ k = b + 1" using Suc_below[of k] by (simp add: b_def)
  have rr: "nd k (2 * j + 1) = a + 3 * b + 2"
    by (subst nd_below) (simp add: a_def b_def[symmetric] Q algebra_simps)
  have lo: "a \<le> m" using rl n nn by linarith
  have hi: "m < a + 3 * b + 2" using rl r rr by linarith
  have "2 ^ (Suc k + 1) * j \<le> m" using lo by (simp add: a_def algebra_simps)
  moreover have "m < 2 ^ (Suc k + 1) * Suc j"
  proof -
    have "2 ^ (Suc k + 1) * Suc j = a + 2 * 2 ^ (k + 1)" by (simp add: a_def algebra_simps)
    then show ?thesis using hi P by linarith
  qed
  ultimately show "m div 2 ^ (Suc k + 1) = j" by (rule div_nat_eqI)
  show "max (max (es ! nd (Suc k) j) (smax es k (2 * j))) (smax es k (m div 2 ^ (k + 1)))
           = smax es (Suc k) j"
  proof (cases "m < a + 2 * b + 2")
    case True
    have "2 ^ (k + 1) * (2 * j) \<le> m" using lo by (simp add: a_def)
    moreover have "m < 2 ^ (k + 1) * Suc (2 * j)"
    proof -
      have "2 ^ (k + 1) * Suc (2 * j) = a + 2 ^ (k + 1)" by (simp add: a_def)
      then show ?thesis using True P by linarith
    qed
    ultimately have d: "m div 2 ^ (k + 1) = 2 * j" by (rule div_nat_eqI)
    have "m \<noteq> nd (Suc k) j" using rl(1) nd_Suc_odd[of k j] by auto
    then have "length es \<le> Suc (nd (Suc k) j)" using True rl(3) nn by linarith
    moreover have "2 ^ (k + 1) * (2 * j + 1) = Suc (nd (Suc k) j)"
      unfolding Suc_nd by simp
    ultimately have "sub es k (2 * j + 1) = []"
      unfolding sub_def by (intro seg_beyond) simp
    from smax_Suc_noright[OF n this] show ?thesis unfolding d by simp
  next
    case False
    have "2 ^ (k + 1) * (2 * j + 1) = a + 2 ^ (k + 1)" by (simp add: a_def)
    then have e: "2 ^ (k + 1) * (2 * j + 1) = a + 2 * b + 2" using P by linarith
    have "2 ^ (k + 1) * (2 * j + 1) \<le> m" using False e by simp
    moreover have "m < 2 ^ (k + 1) * Suc (2 * j + 1)"
    proof -
      have "2 ^ (k + 1) * Suc (2 * j + 1) = a + 2 * 2 ^ (k + 1)" by (simp add: a_def)
      then show ?thesis using hi P by linarith
    qed
    ultimately have d: "m div 2 ^ (k + 1) = 2 * j + 1" by (rule div_nat_eqI)
    have "m < a + 2 * b + 2 + below (Suc k)" using hi by (simp add: b_def)
    then have "es ! m \<in> set (sub es k (2 * j + 1))"
      unfolding sub_def set_seg e using False rl(2) by auto
    then have "sub es k (2 * j + 1) \<noteq> []" by auto
    from smax_Suc_real[OF n this] show ?thesis unfolding d by simp
  qed
qed

declare index_level.simps [simp del]
declare index_levels.simps [simp del]

text \<open>
  The state of the indexing loops is related to the items \<open>its\<close> of the sorted nodes.
  \<open>level_inv\<close> holds before the nodes of level \<open>lv\<close> are visited: the nodes still hold
  the items, the real nodes of the levels below \<open>lv\<close> hold the maximum of their subtree,
  and \<^verbatim>\<open>right_border_ime\<close> is the maximum of the real part of the subtree of the border
  node of level \<open>lv - 1\<close>. \<open>inner_inv\<close> holds before the \<open>j\<close>-th node of level \<open>Suc k\<close>
  is visited.
\<close>

definition level_inv ::
  "('a \<Rightarrow> 'p::linorder) \<Rightarrow> 'a list \<Rightarrow> nat \<Rightarrow> ('p, 'a, 'm) iit_node_base_scheme list \<Rightarrow> 'p \<Rightarrow> bool"
  where
  "level_inv ge its lv ns rbi \<longleftrightarrow>
     map item ns = its \<and>
     (\<forall>k j. k < lv \<longrightarrow> nd k j < length its \<longrightarrow>
        inside_max_end (ns ! nd k j) = smax (map ge its) k j) \<and>
     rbi = smax (map ge its) (lv - 1) ((length its - (2 - length its mod 2)) div 2 ^ lv)"

definition inner_inv ::
  "('a \<Rightarrow> 'p::linorder) \<Rightarrow> 'a list \<Rightarrow> nat \<Rightarrow> ('p, 'a, 'm) iit_node_base_scheme list \<Rightarrow> 'p
     \<Rightarrow> nat \<Rightarrow> bool" where
  "inner_inv ge its k ns rbi j \<longleftrightarrow>
     map item ns = its \<and>
     (\<forall>k' j'. k' \<le> k \<longrightarrow> nd k' j' < length its \<longrightarrow>
        inside_max_end (ns ! nd k' j') = smax (map ge its) k' j') \<and>
     (\<forall>j'<j. nd (Suc k) j' < length its \<longrightarrow>
        inside_max_end (ns ! nd (Suc k) j') = smax (map ge its) (Suc k) j') \<and>
     rbi = (let m = length its - (2 - length its mod 2); jb = m div 2 ^ (Suc k + 1)
            in if jb < j \<and> nd (Suc k) jb < length its then smax (map ge its) (Suc k) jb
               else smax (map ge its) k (m div 2 ^ (k + 1)))"

lemma level_inv_inner: "level_inv ge its (Suc k) ns rbi \<Longrightarrow> inner_inv ge its k ns rbi 0"
  by (simp add: level_inv_def inner_inv_def Let_def less_Suc_eq_le)

lemma smax_in: "sub es k j \<noteq> [] \<Longrightarrow> smax es k j \<in> set es"
proof -
  assume "sub es k j \<noteq> []"
  then have "Max (set (sub es k j)) \<in> set (sub es k j)" by (intro Max_in) simp_all
  moreover have "set (sub es k j) \<subseteq> set es" unfolding sub_def set_seg by auto
  ultimately show ?thesis unfolding smax_def by blast
qed

lemma index_node_inner:
  fixes ge :: "'a \<Rightarrow> 'p::{linorder, order_top}"
  assumes inv: "inner_inv ge its k ns rbi j" and n: "nd (Suc k) j < length its"
    and rbn: "rbn ! Suc k = border (length its - (2 - length its mod 2)) (Suc k)"
    and rbnl: "Suc k < length rbn"
    and fs: "length its \<le> full_size t"
    and ok: "ndebug \<or> top \<notin> set (map ge its)"
  shows "\<exists>ns' rbi'. index_node ndebug ge t rbn (Suc k) (nd (Suc k) j) (ns, rbi) = Some (ns', rbi')
           \<and> inner_inv ge its k ns' rbi' (Suc j)"
proof -
  let ?n = "nd (Suc k) j" and ?l = "nd k (2 * j)" and ?r = "nd k (2 * j + 1)"
  let ?es = "map ge its"
  define m where "m = length its - (2 - length its mod 2)"
  define jb where "jb = m div 2 ^ (Suc k + 1)"
  define v where "v = smax ?es (Suc k) j"
  have its: "map item ns = its" using inv by (simp add: inner_inv_def)
  then have len: "length ns = length its" by (metis length_map)
  have sz: "0 < length ?es" using n by (cases its) simp_all
  have l: "?l < length its" using n nd_child_less(1)[of k j] by simp
  have e0: "ge (item (ns ! ?n)) = ?es ! ?n"
    using its n len by (metis nth_map)
  have e1: "inside_max_end (ns ! ?l) = smax ?es k (2 * j)"
    using inv l by (simp add: inner_inv_def)
  have rbi: "rbi = (if jb < j \<and> nd (Suc k) jb < length its then smax ?es (Suc k) jb
      else smax ?es k (m div 2 ^ (k + 1)))"
    using inv by (simp add: inner_inv_def Let_def m_def jb_def)
  have ime: "(if ?r < length ns then max (max (ge (item (ns ! ?n))) (inside_max_end (ns ! ?l)))
                                       (inside_max_end (ns ! ?r))
             else max (max (ge (item (ns ! ?n))) (inside_max_end (ns ! ?l))) rbi) = v"
  proof (cases "?r < length ns")
    case True
    then have "inside_max_end (ns ! ?r) = smax ?es k (2 * j + 1)"
      using inv len by (simp add: inner_inv_def)
    moreover have "sub ?es k (2 * j + 1) \<noteq> []"
      using sub_self[of k "2 * j + 1" ?es] True len by auto
    ultimately show ?thesis using True e0 e1 smax_Suc_real[of k j ?es] n
      by (simp add: v_def)
  next
    case False
    then have r: "length ?es \<le> ?r" using len by simp
    have n': "?n < length ?es" using n by simp
    have m': "m = length ?es - (2 - length ?es mod 2)" by (simp add: m_def)
    from border_case[OF sz m' n' r] have "jb = j"
      and "max (max (?es ! ?n) (smax ?es k (2 * j))) (smax ?es k (m div 2 ^ (k + 1))) = v"
      by (simp_all add: jb_def v_def)
    then show ?thesis using False e0 e1 rbi by simp
  qed
  define ns' where "ns' = ns[?n := (ns ! ?n)\<lparr>inside_max_end := v\<rparr>]"
  define rbi' where "rbi' = (if ?n = rbn ! Suc k then v else rbi)"
  have "sub ?es (Suc k) j \<noteq> []" using sub_self[of "Suc k" j ?es] n by auto
  then have "v \<in> set ?es" unfolding v_def by (rule smax_in)
  then have vok: "ndebug \<or> v \<noteq> top" using ok by blast
  have inb: "ndebug \<or> ?n < full_size t" using n fs by simp
  have ll: "?l < length ns" using l len by simp
  have run: "index_node ndebug ge t rbn (Suc k) ?n (ns, rbi) = Some (ns', rbi')"
    unfolding index_node_def ns'_def rbi'_def using ime vok inb ll rbnl
    by (auto simp: left_eq right_eq left_child_nd_Suc right_child_nd_Suc Let_def
          split: if_splits)
  have "item (ns ! ?n) = its ! ?n" using its n len by (metis nth_map)
  then have items': "map item ns' = its"
    unfolding ns'_def using its by (simp add: map_update)
  have lower: "inside_max_end (ns' ! nd k' j') = smax ?es k' j'"
    if "k' \<le> k" "nd k' j' < length its" for k' j'
  proof -
    have "nd k' j' \<noteq> ?n" using that(1) nd_trailing_ones_eq[of k' j' "Suc k" j] by auto
    then show ?thesis using inv that by (simp add: ns'_def inner_inv_def)
  qed
  have this_level: "inside_max_end (ns' ! nd (Suc k) j') = smax ?es (Suc k) j'"
    if "j' < Suc j" "nd (Suc k) j' < length its" for j'
  proof (cases "j' = j")
    case True
    then show ?thesis using n len by (simp add: ns'_def v_def)
  next
    case False
    then have "nd (Suc k) j' \<noteq> ?n" using nd_inj by blast
    then show ?thesis using inv that False by (simp add: ns'_def inner_inv_def)
  qed
  have "rbn ! Suc k = nd (Suc k) jb" using rbn by (simp add: border_def m_def jb_def)
  then have "?n = rbn ! Suc k \<longleftrightarrow> j = jb" using nd_inj by metis
  then have rbi'': "rbi' = (if jb < Suc j \<and> nd (Suc k) jb < length its then smax ?es (Suc k) jb
      else smax ?es k (m div 2 ^ (k + 1)))"
    unfolding rbi'_def rbi using n by (auto simp: v_def)
  have "inner_inv ge its k ns' rbi' (Suc j)"
    unfolding inner_inv_def Let_def
    using items' lower this_level rbi''[unfolded m_def jb_def] by (simp add: m_def jb_def)
  then show ?thesis using run by blast
qed


lemma inner_inv_done:
  assumes inv: "inner_inv ge its k ns rbi j" and n: "length its \<le> nd (Suc k) j"
    and sz: "0 < length its"
  shows "level_inv ge its (Suc (Suc k)) ns rbi"
proof -
  let ?es = "map ge its"
  define m where "m = length its - (2 - length its mod 2)"
  define jb where "jb = m div 2 ^ (Suc k + 1)"
  note rl = rightmost_leaf[OF sz m_def]
  have before: "j' < j" if "nd (Suc k) j' < length its" for j'
  proof (rule ccontr)
    assume "\<not> j' < j"
    then have "nd (Suc k) j \<le> nd (Suc k) j'" by (intro nd_mono) simp
    then show False using that n by simp
  qed
  have lower: "inside_max_end (ns ! nd k' j') = smax ?es k' j'"
    if "k' < Suc (Suc k)" "nd k' j' < length its" for k' j'
  proof (cases "k' = Suc k")
    case True
    then show ?thesis using inv that before by (simp add: inner_inv_def)
  next
    case False
    then have "k' \<le> k" using that by simp
    then show ?thesis using inv that by (simp add: inner_inv_def)
  qed
  have rbi: "rbi = (if jb < j \<and> nd (Suc k) jb < length its then smax ?es (Suc k) jb
      else smax ?es k (m div 2 ^ (k + 1)))"
    using inv by (simp add: inner_inv_def Let_def m_def jb_def)
  have "rbi = smax ?es (Suc k) jb"
  proof (cases "nd (Suc k) jb < length its")
    case True
    then show ?thesis using rbi before by simp
  next
    case False
    define q where "q = m div 2 ^ (k + 1)"
    have "q div 2 = m div (2 ^ (k + 1) * 2)" unfolding q_def by (rule div_mult2_eq[symmetric])
    then have half: "q div 2 = jb" by (simp add: jb_def)
    have "even q"
    proof (rule ccontr)
      assume "odd q"
      then have "q = 2 * jb + 1" using half by presburger
      then have "2 ^ (k + 1) * (2 * jb + 1) \<le> m"
        using times_div_less_eq_dividend[of "2 ^ (k + 1)" m] by (simp add: q_def)
      then have "Suc (nd (Suc k) jb) \<le> m" unfolding Suc_nd by simp
      then show False using False rl(2) by simp
    qed
    then have "m div 2 ^ (k + 1) = 2 * jb" using half unfolding q_def[symmetric] by presburger
    then show ?thesis using rbi False smax_Suc_imaginary[of ?es k jb] by simp
  qed
  then show ?thesis using inv lower unfolding level_inv_def
    by (simp add: inner_inv_def m_def jb_def)
qed

lemma index_level_inner:
  fixes ge :: "'a \<Rightarrow> 'p::{linorder, order_top}"
  assumes "inner_inv ge its k ns rbi j" and "0 < length its"
    and "rbn ! Suc k = border (length its - (2 - length its mod 2)) (Suc k)"
    and "Suc k < length rbn"
    and "length its \<le> full_size t"
    and "ndebug \<or> top \<notin> set (map ge its)"
  shows "\<exists>ns' rbi'. index_level ndebug ge t rbn (Suc k) (nd (Suc k) j) (ns, rbi) = Some (ns', rbi')
           \<and> level_inv ge its (Suc (Suc k)) ns' rbi'"
  using assms(1)
proof (induction "length its - nd (Suc k) j" arbitrary: j ns rbi rule: less_induct)
  case less
  have len: "length ns = length its" using less.prems by (metis inner_inv_def length_map)
  show ?case
  proof (cases "nd (Suc k) j < length its")
    case False
    then have "level_inv ge its (Suc (Suc k)) ns rbi"
      using inner_inv_done[OF less.prems _ assms(2)] by simp
    then show ?thesis using False len by (subst index_level.simps) simp
  next
    case True
    obtain ns1 rbi1 where
      step: "index_node ndebug ge t rbn (Suc k) (nd (Suc k) j) (ns, rbi) = Some (ns1, rbi1)"
      and inv1: "inner_inv ge its k ns1 rbi1 (Suc j)"
      using index_node_inner[OF less.prems True assms(3,4,5,6)] by blast
    have next_rank: "nd (Suc k) j + 2 ^ (Suc k - 1) * 4 = nd (Suc k) (Suc j)"
      using nd_Suc_step[of "Suc k" j] by simp
    have "length its - nd (Suc k) (Suc j) < length its - nd (Suc k) j"
      using True nd_strict_mono[of j "Suc j" "Suc k"] by simp
    from less.hyps[OF this inv1] show ?thesis
      using True len step next_rank by (subst index_level.simps) simp
  qed
qed

lemma index_levels_inv:
  fixes ge :: "'a \<Rightarrow> 'p::{linorder, order_top}"
  assumes "level_inv ge its lv ns rbi" and "0 < length its" and "1 \<le> lv"
    and "\<forall>k. 1 \<le> k \<and> k \<le> rl \<longrightarrow> rbn ! k = border (length its - (2 - length its mod 2)) k"
    and "rl < length rbn"
    and "length its \<le> full_size t"
    and "ndebug \<or> top \<notin> set (map ge its)"
  shows "\<exists>ns' rbi'. index_levels ndebug ge t rbn rl lv (ns, rbi) = Some (ns', rbi')
           \<and> level_inv ge its (max lv (Suc rl)) ns' rbi'"
  using assms(1,3)
proof (induction "Suc rl - lv" arbitrary: lv ns rbi rule: less_induct)
  case less
  show ?case
  proof (cases "lv \<le> rl")
    case False
    then have "max lv (Suc rl) = lv" by simp
    then show ?thesis using False less.prems by (subst index_levels.simps) simp
  next
    case True
    obtain k where k: "lv = Suc k" using less.prems(2) by (cases lv) auto
    have start: "2 ^ (lv - 1) * 2 - 1 = nd lv 0"
      by (simp add: k nd_below below_eq)
    have "inner_inv ge its k ns rbi 0"
      using less.prems(1) level_inv_inner by (simp add: k)
    moreover have "rbn ! Suc k = border (length its - (2 - length its mod 2)) (Suc k)"
      using assms(4) True k by simp
    moreover have "Suc k < length rbn" using assms(5) True k by simp
    ultimately obtain ns1 rbi1 where
      run: "index_level ndebug ge t rbn lv (nd lv 0) (ns, rbi) = Some (ns1, rbi1)"
      and inv1: "level_inv ge its (Suc lv) ns1 rbi1"
      using index_level_inner[of ge its k ns rbi 0 rbn t ndebug] assms(2,6,7) k by blast
    have "Suc rl - (lv + 1) < Suc rl - lv" using True by simp
    from less.hyps[OF this, of ns1 rbi1] inv1
    obtain ns' rbi' where "index_levels ndebug ge t rbn rl (lv + 1) (ns1, rbi1) = Some (ns', rbi')"
      "level_inv ge its (max (lv + 1) (Suc rl)) ns' rbi'" by auto
    moreover have "max (lv + 1) (Suc rl) = max lv (Suc rl)" using True by simp
    ultimately show ?thesis using True run start by (subst index_levels.simps) simp
  qed
qed

subsection \<open>What the constructor establishes\<close>

text \<open>
  \<open>iit_wf\<close> collects the facts about a constructed index that the queries rely on: the
  order of the nodes, the value of \<^verbatim>\<open>inside_max_end\<close> at every real node, and the
  geometry.
\<close>

definition iit_wf ::
  "('a \<Rightarrow> 'p::linorder) \<Rightarrow> ('a \<Rightarrow> 'p) \<Rightarrow> (('p, 'a, 'm) iit_node_base_scheme, 'z) iit_base_scheme
     \<Rightarrow> bool" where
  "iit_wf gb ge t \<longleftrightarrow>
     sorted_wrt (node_le gb ge) (nodes t) \<and>
     (\<forall>k j. nd k j < length (nodes t) \<longrightarrow>
        inside_max_end (nodes t ! nd k j) = smax (map (\<lambda>n. ge (item n)) (nodes t)) k j) \<and>
     root t = nd (root_level t) 0 \<and>
     length (nodes t) \<le> below (Suc (root_level t)) \<and>
     full_size t = (if nodes t = [] then 0 else below (Suc (root_level t))) \<and>
     (if nodes t = [] then root_level t = 0 else 1 \<le> root_level t)"

lemma sorted_wrt_node_le_items:
  assumes "map item ns = map item ns'"
  shows "sorted_wrt (node_le gb ge) ns = sorted_wrt (node_le gb ge) ns'"
proof -
  have len: "length ns = length ns'" using assms by (metis length_map)
  have "item (ns ! i) = item (ns' ! i)" if "i < length ns" for i
    using assms that len by (metis nth_map)
  then show ?thesis unfolding sorted_wrt_iff_nth_less len[symmetric]
    by (simp add: node_le_def len)
qed

lemma iit_base_ctor_empty:
  "iit_base_ctor ndebug gb ge [] = Some \<lparr>nodes = [], full_size = 0, root = 0, root_level = 0\<rparr>"
  by (simp add: iit_base_ctor_def tree_geometry_empty)

lemma iit_base_ctor_wf:
  fixes ge :: "'a \<Rightarrow> 'p::{linorder, order_top}"
  assumes leaves: "\<forall>n \<in> set nodes_in. inside_max_end n = ge (item n)"
    and ok: "ndebug \<or> (\<forall>n \<in> set nodes_in. ge (item n) \<noteq> top)"
  shows "\<exists>t. iit_base_ctor ndebug gb ge nodes_in = Some t \<and> iit_wf gb ge t \<and>
           map item (nodes t) = map item (std_sort (node_less gb ge) nodes_in)"
proof (cases "nodes_in = []")
  case True
  then show ?thesis
    by (simp add: iit_base_ctor_empty iit_wf_def std_sort_def)
next
  case False
  define sz where "sz = length nodes_in"
  define ns0 where "ns0 = std_sort (node_less gb ge) nodes_in"
  define its where "its = map item ns0"
  define m where "m = length its - (2 - length its mod 2)"
  obtain rl fs where g: "tree_geometry (length nodes_in) 0 0 = (rl, fs)" by fastforce
  have sz: "0 < length nodes_in" using False by simp
  note geo = tree_geometry_nonempty[OF sz g]
  have len0: "length ns0 = length nodes_in" by (simp add: ns0_def length_std_sort)
  have leni: "length its = length nodes_in" by (simp add: its_def len0)
  have szi: "0 < length its" using sz leni by simp
  note rml = rightmost_leaf[OF szi m_def]
  define t0 where
    "t0 = \<lparr>nodes = ns0, full_size = fs, root = 2 ^ rl - 1, root_level = rl\<rparr>"
  have root: "root t0 = nd rl 0" by (simp add: t0_def nd_below below_eq)
  have fs0: "full_size t0 = below (Suc rl)" using geo by (simp add: t0_def)
  have "m < below (Suc rl)" using rml(2) geo leni by simp
  from right_border_loop_start[OF root fs0 this rml(1)]
  have border: "right_border_loop ndebug t0 [m] = Some (map (border m) [0..<Suc rl])" .
  define rbn where "rbn = map (border m) [0..<Suc rl]"
  have rbn: "rbn ! k = border m k" if "k \<le> rl" for k
    unfolding rbn_def using that nth_map[of k "[0..<Suc rl]" "border m"] by (simp del: upt_Suc)
  have rbn0: "rbn ! 0 = m" using rbn[of 0] border_0[OF rml(1)] by simp
  have leaf: "inside_max_end n = ge (item n)" if "n \<in> set ns0" for n
    using leaves that by (simp add: ns0_def set_std_sort)
  have init: "level_inv ge its 1 ns0 (inside_max_end (ns0 ! m))"
  proof -
    have "inside_max_end (ns0 ! nd 0 j) = smax (map ge its) 0 j" if "nd 0 j < length its" for j
    proof -
      have "inside_max_end (ns0 ! (2 * j)) = ge (item (ns0 ! (2 * j)))"
        using that leaf[of "ns0 ! (2 * j)"] leni len0 by simp
      then show ?thesis using that smax_0[of j "map ge its"] by (simp add: its_def)
    qed
    moreover have "inside_max_end (ns0 ! m) = smax (map ge its) 0 (m div 2)"
    proof -
      have "2 * (m div 2) = m" using rml(1) by simp
      moreover have "inside_max_end (ns0 ! m) = ge (item (ns0 ! m))"
        using rml(2) leaf[of "ns0 ! m"] leni len0 by simp
      ultimately show ?thesis using rml(2) smax_0[of "m div 2" "map ge its"]
        by (simp add: its_def)
    qed
    ultimately show ?thesis by (simp add: level_inv_def its_def m_def)
  qed
  have "\<forall>k. 1 \<le> k \<and> k \<le> rl \<longrightarrow> rbn ! k = border (length its - (2 - length its mod 2)) k"
    using rbn by (simp add: m_def)
  moreover have "rl < length rbn" by (simp add: rbn_def)
  moreover have "length its \<le> full_size t0" using geo leni by (simp add: t0_def)
  moreover have "ndebug \<or> top \<notin> set (map ge its)"
    using ok by (auto simp: its_def ns0_def set_std_sort)
  ultimately obtain ns' rbi' where
    run: "index_levels ndebug ge t0 rbn rl 1 (ns0, inside_max_end (ns0 ! m)) = Some (ns', rbi')"
    and fin: "level_inv ge its (Suc rl) ns' rbi'"
    using index_levels_inv[OF init szi, of rl rbn t0 ndebug] by (auto simp: max_def)
  define t where "t = t0\<lparr>nodes := ns'\<rparr>"
  have its': "map item ns' = its" using fin by (simp add: level_inv_def)
  then have len': "length ns' = length nodes_in" using leni by (metis length_map)
  have m0: "length ns0 - (2 - length ns0 mod 2) = m" by (simp only: m_def leni len0)
  have "iit_base_ctor ndebug gb ge nodes_in =
      (case right_border_loop ndebug t0 [length ns0 - (2 - length ns0 mod 2)] of None \<Rightarrow> None
       | Some right_border_nodes \<Rightarrow>
          (case index_levels ndebug ge t0 right_border_nodes rl 1
                  (ns0, inside_max_end (ns0 ! (right_border_nodes ! 0))) of
             None \<Rightarrow> None
           | Some (ns, right_border_ime) \<Rightarrow> Some (t0\<lparr>nodes := ns\<rparr>)))"
    unfolding iit_base_ctor_def g t0_def ns0_def using False
    by (simp add: Let_def length_std_sort split: option.splits prod.splits)
  also have "\<dots> = Some t"
    by (simp only: m0 border option.case rbn_def[symmetric] rbn0 run prod.case t_def)
  finally have res: "iit_base_ctor ndebug gb ge nodes_in = Some t" .
  have es: "map (\<lambda>n. ge (item n)) ns' = map ge its" unfolding its'[symmetric] by simp
  have ime: "inside_max_end (ns' ! nd k j) = smax (map (\<lambda>n. ge (item n)) ns') k j"
    if "nd k j < length ns'" for k j
  proof -
    have "k < Suc rl"
    proof (rule ccontr)
      assume "\<not> k < Suc rl"
      then have "below (Suc rl) \<le> below k" by (intro below_mono) simp
      then show False using that below_le_nd[of k j] geo len' by simp
    qed
    then show ?thesis using fin that len' leni unfolding es by (simp add: level_inv_def)
  qed
  have "sorted_wrt (node_le gb ge) ns'"
    using sorted_wrt_node_le_items[of ns' ns0 gb ge] its' sorted_std_sort[of gb ge nodes_in]
    by (simp add: its_def ns0_def)
  then have "iit_wf gb ge t"
    using ime geo False len' by (auto simp: iit_wf_def t_def t0_def nd_below below_eq)
  then show ?thesis using res its' by (auto simp: t_def t0_def its_def ns0_def)
qed

subsection \<open>The assertions only remove results\<close>

text \<open>A result of the build with the assertions checked is the result of the build
  without them.\<close>

lemma index_node_mono:
  "index_node ndebug ge t rbn lv n st = Some st' \<Longrightarrow> index_node True ge t rbn lv n st = Some st'"
  by (cases st)
    (auto simp: index_node_def left_eq right_eq Let_def split: if_splits rank.splits)

lemma index_level_mono:
  "index_level ndebug ge t rbn lv n st = Some st' \<Longrightarrow> index_level True ge t rbn lv n st = Some st'"
proof (induction ndebug ge t rbn lv n st rule: index_level.induct)
  case (1 ndebug ge t rbn lv n st)
  show ?case
  proof (cases "n < length (fst st)")
    case False
    then have "st' = st" using "1.prems" by (subst (asm) index_level.simps) simp
    then show ?thesis using False by (subst index_level.simps) simp
  next
    case True
    then obtain st1 where s1: "index_node ndebug ge t rbn lv n st = Some st1"
      and r: "index_level ndebug ge t rbn lv (n + 2 ^ (lv - 1) * 4) st1 = Some st'"
      using "1.prems" by (subst (asm) index_level.simps) (auto split: option.splits)
    from "1.IH"[OF True s1 r] index_node_mono[OF s1] True show ?thesis
      by (subst index_level.simps) simp
  qed
qed

lemma index_levels_mono:
  "index_levels ndebug ge t rbn rl lv st = Some st' \<Longrightarrow>
   index_levels True ge t rbn rl lv st = Some st'"
proof (induction ndebug ge t rbn rl lv st rule: index_levels.induct)
  case (1 ndebug ge t rbn rl lv st)
  show ?case
  proof (cases "lv \<le> rl")
    case False
    then have "st' = st" using "1.prems" by (subst (asm) index_levels.simps) simp
    then show ?thesis using False by (subst index_levels.simps) simp
  next
    case True
    then obtain st1 where
      s1: "index_level ndebug ge t rbn lv (2 ^ (lv - 1) * 2 - 1) st = Some st1"
      and r: "index_levels ndebug ge t rbn rl (lv + 1) st1 = Some st'"
      using "1.prems" by (subst (asm) index_levels.simps) (auto split: option.splits)
    from "1.IH"[OF True s1 r] index_level_mono[OF s1] True show ?thesis
      by (subst index_levels.simps) simp
  qed
qed

lemma iit_base_ctor_nonempty:
  fixes gb :: "'a \<Rightarrow> 'p::{linorder, order_top}" and ge :: "'a \<Rightarrow> 'p"
    and nodes_in :: "('p, 'a, 'm) iit_node_base_scheme list"
  assumes ne: "nodes_in \<noteq> []" and g: "tree_geometry (length nodes_in) 0 0 = (rl, fs)"
  defines "ns0 \<equiv> std_sort (node_less gb ge) nodes_in"
  defines "m \<equiv> length nodes_in - (2 - length nodes_in mod 2)"
  defines "t0 \<equiv> \<lparr>nodes = ns0, full_size = fs, root = 2 ^ rl - 1, root_level = rl\<rparr>"
  shows "iit_base_ctor ndebug gb ge nodes_in =
           (case index_levels ndebug ge t0 (map (border m) [0..<Suc rl]) rl 1
                   (ns0, inside_max_end (ns0 ! m)) of
              None \<Rightarrow> None
            | Some (ns, right_border_ime) \<Rightarrow> Some (t0\<lparr>nodes := ns\<rparr>))"
proof -
  have sz: "0 < length nodes_in" using ne by simp
  note geo = tree_geometry_nonempty[OF sz g]
  have len0: "length ns0 = length nodes_in" by (simp add: ns0_def length_std_sort)
  have "m = length nodes_in - (2 - length nodes_in mod 2)" by (simp add: m_def)
  note rml = rightmost_leaf[OF sz this]
  have root: "root t0 = nd rl 0" by (simp add: t0_def nd_below below_eq)
  have fs0: "full_size t0 = below (Suc rl)" using geo by (simp add: t0_def)
  have "m < below (Suc rl)" using rml(2) geo by simp
  from right_border_loop_start[OF root fs0 this rml(1)]
  have border: "right_border_loop ndebug t0 [m] = Some (map (border m) [0..<Suc rl])" .
  have rbn0: "map (border m) [0..<Suc rl] ! 0 = m"
    using nth_map[of 0 "[0..<Suc rl]" "border m"] border_0[OF rml(1)] by (simp del: upt_Suc)
  have m0: "length ns0 - (2 - length ns0 mod 2) = m" by (simp only: m_def len0)
  have "iit_base_ctor ndebug gb ge nodes_in =
      (case right_border_loop ndebug t0 [length ns0 - (2 - length ns0 mod 2)] of None \<Rightarrow> None
       | Some right_border_nodes \<Rightarrow>
          (case index_levels ndebug ge t0 right_border_nodes rl 1
                  (ns0, inside_max_end (ns0 ! (right_border_nodes ! 0))) of
             None \<Rightarrow> None
           | Some (ns, right_border_ime) \<Rightarrow> Some (t0\<lparr>nodes := ns\<rparr>)))"
    unfolding iit_base_ctor_def g t0_def ns0_def using ne
    by (simp add: Let_def length_std_sort split: option.splits prod.splits)
  also have "\<dots> = (case index_levels ndebug ge t0 (map (border m) [0..<Suc rl]) rl 1
                   (ns0, inside_max_end (ns0 ! m)) of
              None \<Rightarrow> None
            | Some (ns, right_border_ime) \<Rightarrow> Some (t0\<lparr>nodes := ns\<rparr>))"
    by (simp only: m0 border option.case rbn0)
  finally show ?thesis .
qed

lemma iit_base_ctor_mono:
  assumes "iit_base_ctor ndebug gb ge nodes_in = Some t"
  shows "iit_base_ctor True gb ge nodes_in = Some t"
proof (cases "nodes_in = []")
  case True
  then show ?thesis using assms by (simp add: iit_base_ctor_empty)
next
  case False
  obtain rl fs where g: "tree_geometry (length nodes_in) 0 0 = (rl, fs)" by fastforce
  show ?thesis
    using assms unfolding iit_base_ctor_nonempty[OF False g]
    by (auto split: option.splits dest: index_levels_mono)
qed

lemma iit_base_ctor_Some_wf:
  fixes ge :: "'a \<Rightarrow> 'p::{linorder, order_top}"
  assumes leaves: "\<forall>n \<in> set nodes_in. inside_max_end n = ge (item n)"
    and res: "iit_base_ctor ndebug gb ge nodes_in = Some t"
  shows "iit_wf gb ge t \<and> map item (nodes t) = map item (std_sort (node_less gb ge) nodes_in)"
  using iit_base_ctor_wf[OF leaves, of True gb] iit_base_ctor_mono[OF res] by auto

section \<open>Queries on a constructed index\<close>

lemma iit_wf_ime_bounds: "iit_wf gb ge t \<Longrightarrow> ime_bounds ge (nodes t)"
proof -
  assume wf: "iit_wf gb ge t"
  let ?es = "map (\<lambda>n. ge (item n)) (nodes t)"
  have "ge (item x) \<le> inside_max_end (nodes t ! nd k j)"
    if r: "nd k j < length (nodes t)" and x: "x \<in> set (sub (nodes t) k j)" for k j x
  proof -
    have "map (\<lambda>n. ge (item n)) (sub (nodes t) k j) = sub ?es k j"
      by (simp add: sub_def seg_def)
    then have "ge (item x) \<in> set (sub ?es k j)" using x by (metis image_eqI set_map)
    then have "ge (item x) \<le> smax ?es k j" unfolding smax_def by (intro Max_ge) simp_all
    then show ?thesis using wf r by (simp add: iit_wf_def)
  qed
  then show ?thesis unfolding ime_bounds_def by blast
qed

lemma sub_root: "length xs \<le> below (Suc rl) \<Longrightarrow> sub xs rl 0 = xs"
  by (simp add: sub_def seg_all)

lemma overlap_wf:
  assumes wf: "iit_wf gb ge t" and ne: "nodes t \<noteq> []"
  shows "\<exists>c. overlap ndebug gb ge t qbeg qend =
           Some (c, filter (overlaps gb ge qbeg qend) (map item (nodes t)))"
proof -
  have s: "beg_sorted gb (nodes t)" using wf node_le_beg_sorted by (auto simp: iit_wf_def)
  have r: "root t = nd (root_level t) 0" and "length (nodes t) \<le> below (Suc (root_level t))"
    and fs: "full_size t = below (Suc (root_level t))"
    using wf ne by (simp_all add: iit_wf_def)
  then have "sub (nodes t) (root_level t) 0 = nodes t" by (intro sub_root)
  then have "map_option snd (overlap ndebug gb ge t qbeg qend) =
      Some (filter (overlaps gb ge qbeg qend) (map item (nodes t)))"
    unfolding overlap_def r
    using scan_sub[OF s iit_wf_ime_bounds[OF wf] fs, of "root_level t" 0 ndebug qbeg qend "[]"]
    by simp
  then show ?thesis by auto
qed

lemma builder_of_range_nodes: "builder_nodes (builder_of_range mk its) = map mk its"
proof -
  have "builder_nodes (fold (\<lambda>it b. add mk b it) its b) = builder_nodes b @ map mk its" for b
    by (induction its arbitrary: b) (simp_all add: add_def)
  then show ?thesis by (simp add: builder_of_range_def add_range_def builder_empty_def)
qed

lemma iit_build_eq:
  "iit_build ndebug gb ge its = iit_base_ctor ndebug gb ge (map (iit_node_base_ctor ge) its)"
  by (simp add: iit_build_def build_def builder_of_range_nodes)

lemma mset_items_std_sort:
  "mset (map item (std_sort lt (map (iit_node_base_ctor ge) its))) = mset its"
proof -
  have "mset (map item (std_sort lt (map (iit_node_base_ctor ge) its)))
      = image_mset item (mset (map (iit_node_base_ctor ge) its))"
    by (simp add: mset_std_sort)
  also have "\<dots> = mset its"
    by (simp add: multiset.map_comp comp_def iit_node_base_ctor_def)
  finally show ?thesis .
qed

lemma iit_build_total:
  fixes ge :: "'a \<Rightarrow> 'p::{linorder, order_top}"
  assumes "ndebug \<or> (\<forall>x \<in> set its. ge x \<noteq> top)"
  shows "\<exists>t. iit_build ndebug gb ge its = Some t"
proof -
  let ?ns = "map (iit_node_base_ctor ge) its"
  have "\<forall>n \<in> set ?ns. inside_max_end n = ge (item n)"
    by (simp add: iit_node_base_ctor_def)
  moreover have "ndebug \<or> (\<forall>n \<in> set ?ns. ge (item n) \<noteq> top)"
    using assms by (auto simp: iit_node_base_ctor_def)
  ultimately show ?thesis using iit_base_ctor_wf[of ?ns ge ndebug gb]
    unfolding iit_build_eq by blast
qed

lemma iit_build_Some:
  fixes ge :: "'a \<Rightarrow> 'p::{linorder, order_top}"
  assumes "iit_build ndebug gb ge its = Some t"
  shows "iit_wf gb ge t" and "mset (map item (nodes t)) = mset its"
    and "length (nodes t) = length its"
proof -
  let ?ns = "map (iit_node_base_ctor ge) its"
  have "\<forall>n \<in> set ?ns. inside_max_end n = ge (item n)"
    by (simp add: iit_node_base_ctor_def)
  from iit_base_ctor_Some_wf[OF this assms[unfolded iit_build_eq]]
  have wf: "iit_wf gb ge t"
    and it: "map item (nodes t) = map item (std_sort (node_less gb ge) ?ns)" by simp_all
  show "iit_wf gb ge t" by (rule wf)
  show m: "mset (map item (nodes t)) = mset its" unfolding it by (rule mset_items_std_sort)
  show "length (nodes t) = length its" using m by (metis length_map size_mset)
qed

lemma iit_build_overlap:
  fixes ge :: "'a \<Rightarrow> 'p::{linorder, order_top}"
  assumes b: "iit_build ndebug gb ge its = Some t" and ne: "its \<noteq> []"
  shows "\<exists>c r. overlap ndebug gb ge t qbeg qend = Some (c, r) \<and>
           mset r = filter_mset (\<lambda>x. ge x > qbeg \<and> gb x < qend) (mset its)"
proof -
  note t = iit_build_Some[OF b]
  have "nodes t \<noteq> []" using t(3) ne by auto
  from overlap_wf[OF t(1) this, of ndebug qbeg qend] obtain c where
    c: "overlap ndebug gb ge t qbeg qend =
          Some (c, filter (overlaps gb ge qbeg qend) (map item (nodes t)))" by blast
  have "mset (filter (overlaps gb ge qbeg qend) (map item (nodes t)))
      = filter_mset (overlaps gb ge qbeg qend) (mset (map item (nodes t)))" by simp
  also have "\<dots> = filter_mset (\<lambda>x. ge x > qbeg \<and> gb x < qend) (mset its)"
    unfolding t(2) by (rule filter_mset_cong) (simp_all add: overlaps_def)
  finally show ?thesis using c by blast
qed

text \<open>
  C1. For every non-empty item set and every query, the items that
  \<^verbatim>\<open>overlap(qbeg, qend)\<close> of the index built from the items returns are, as a multiset,
  exactly the stored items \<open>x\<close> with \<open>end(x) > qbeg\<close> and \<open>beg(x) < qend\<close>: the build
  returns an index when assertions are off or no end position is the reserved \<^verbatim>\<open>npos\<close> (the
  greatest position), and on every index that the build returns the query returns, with
  these items. The hypothesis \<open>beg(x) \<le> end(x)\<close> of the specification is not needed. An
  index of no items is excluded: there the query fails the assertion of \<^verbatim>\<open>scan\<close>
  (theorem \<open>overlap_empty_index_aborts\<close>).
\<close>

theorem overlap_sound_and_complete:
  fixes ge :: "'a \<Rightarrow> 'p::{linorder, order_top}"
  assumes "its \<noteq> []"
  shows "(ndebug \<or> (\<forall>x \<in> set its. ge x \<noteq> top) \<longrightarrow> (\<exists>t. iit_build ndebug gb ge its = Some t)) \<and>
         (\<forall>t. iit_build ndebug gb ge its = Some t \<longrightarrow>
            (\<exists>c r. overlap ndebug gb ge t qbeg qend = Some (c, r) \<and>
               mset r = filter_mset (\<lambda>x. ge x > qbeg \<and> gb x < qend) (mset its)))"
  using iit_build_total[of ndebug its ge gb] iit_build_overlap[OF _ assms, of ndebug gb ge]
  by blast

theorem overlap_sound_and_complete_witness:
  "\<exists>t c r. iit_build False fst snd ([(5, 10), (1, 3), (2, 20), (7, 8), (0, 1)] :: (32 word \<times> 32 word) list) = Some t \<and>
     overlap False fst snd t 2 6 = Some (c, r) \<and> mset r = {#(1, 3), (2, 20), (5, 10)#}"
proof -
  let ?its = "([(5, 10), (1, 3), (2, 20), (7, 8), (0, 1)] :: (32 word \<times> 32 word) list)"
  have ok: "\<forall>x \<in> set ?its. snd x \<noteq> top" by (simp add: top_word_eq)
  have f: "filter_mset (\<lambda>x. snd x > 2 \<and> fst x < 6) (mset ?its) = {#(1, 3), (2, 20), (5, 10)#}"
    by simp
  from overlap_sound_and_complete[of ?its False snd fst 2 6] ok
  show ?thesis unfolding f by blast
qed

text \<open>
  The failing input of C1: the index of no items is built, and a query on it fails
  \<^verbatim>\<open>assert(subtree < full_size)\<close> in \<^verbatim>\<open>scan\<close>, since \<^verbatim>\<open>root = full_size = 0\<close>.
\<close>

theorem overlap_empty_index_aborts:
  "\<exists>t. iit_build False fst snd ([] :: (32 word \<times> 32 word) list) = Some t \<and>
       overlap False fst snd t 0 100 = None"
  by (simp add: iit_build_eq iit_base_ctor_empty overlap_def scan.simps)

text \<open>
  C7. An index built from no items has \<^verbatim>\<open>root = 0\<close> and \<^verbatim>\<open>full_size = 0\<close>. With assertions
  off, every query on it returns no item, but \<^verbatim>\<open>scan\<close> visits rank 0 as an imaginary node
  and the cost returned is 1, not 0. With assertions on, the visit fails
  \<^verbatim>\<open>assert(subtree < full_size)\<close> and the query returns nothing.
\<close>

theorem empty_index_query_cost:
  "iit_build ndebug gb ge [] = Some \<lparr>nodes = [], full_size = 0, root = 0, root_level = 0\<rparr> \<and>
   overlap True gb ge \<lparr>nodes = [], full_size = 0, root = 0, root_level = 0\<rparr> qbeg qend
     = Some (1, []) \<and>
   overlap False gb ge \<lparr>nodes = [], full_size = 0, root = 0, root_level = 0\<rparr> qbeg qend = None"
  by (simp add: iit_build_eq iit_base_ctor_empty overlap_def scan.simps left_eq left_child_def
      trailing_ones_even)

section \<open>The invariants of the node array\<close>

text \<open>The maximum of the end positions over the real nodes of the subtree of rank \<open>n\<close>,
  the node itself included, as the specification defines \<^verbatim>\<open>inside_max_end\<close>.\<close>

definition subtree_max_end ::
  "('a \<Rightarrow> 'p::linorder) \<Rightarrow> ('p, 'a, 'm) iit_node_base_scheme list \<Rightarrow> nat \<Rightarrow> 'p" where
  "subtree_max_end ge ns n =
     Max (set [ge (item (ns ! m)). m \<leftarrow> [0..<length ns], in_subtree n m])"

lemma subtree_max_end_smax:
  "subtree_max_end ge ns (nd k j) = smax (map (\<lambda>n. ge (item n)) ns) k j"
proof -
  let ?es = "map (\<lambda>n. ge (item n)) ns"
  have "set [ge (item (ns ! m)). m \<leftarrow> [0..<length ns], in_subtree (nd k j) m]
      = {ge (item (ns ! m)) | m. m < length ns \<and> in_subtree (nd k j) m}" by auto
  also have "\<dots> = {?es ! m | m. m < length ?es \<and> in_subtree (nd k j) m}"
    by (intro Collect_cong ex_cong1) auto
  also have "\<dots> = set (sub ?es k j)" by (simp only: set_sub)
  finally show ?thesis by (simp only: subtree_max_end_def smax_def)
qed

lemma iit_wf_inside_max_end:
  assumes "iit_wf gb ge t" and "n < length (nodes t)"
  shows "inside_max_end (nodes t ! n) = subtree_max_end ge (nodes t) n"
proof -
  define k where "k = trailing_ones n"
  obtain j where j: "n = nd k j" unfolding k_def using nd_trailing_ones by blast
  have "\<forall>k j. nd k j < length (nodes t) \<longrightarrow>
      inside_max_end (nodes t ! nd k j) = smax (map (\<lambda>n. ge (item n)) (nodes t)) k j"
    using assms(1) by (simp add: iit_wf_def)
  then have "inside_max_end (nodes t ! nd k j) = smax (map (\<lambda>n. ge (item n)) (nodes t)) k j"
    using assms(2) j by blast
  then show ?thesis unfolding j subtree_max_end_smax .
qed

text \<open>
  C3. The build returns an index when assertions are off or no end position is the
  reserved \<^verbatim>\<open>npos\<close>; and in every index that the build returns, there is a node for every
  item, and \<^verbatim>\<open>inside_max_end\<close> of every real node \<open>n\<close> is the maximum of the end
  positions of the real nodes in the subtree of \<open>n\<close>, \<open>n\<close> included.
\<close>

theorem inside_max_end_subtree_max:
  fixes ge :: "'a \<Rightarrow> 'p::{linorder, order_top}"
  shows "(ndebug \<or> (\<forall>x \<in> set its. ge x \<noteq> top) \<longrightarrow> (\<exists>t. iit_build ndebug gb ge its = Some t)) \<and>
         (\<forall>t. iit_build ndebug gb ge its = Some t \<longrightarrow>
            length (nodes t) = length its \<and>
            (\<forall>n. n < length (nodes t) \<longrightarrow>
               inside_max_end (nodes t ! n) = subtree_max_end ge (nodes t) n))"
  using iit_build_total[of ndebug its ge gb] iit_build_Some(1,3)[of ndebug gb ge its]
    iit_wf_inside_max_end[of gb ge]
  by blast

theorem inside_max_end_subtree_max_witness:
  "\<exists>t. iit_build False fst snd
          ([(5, 10), (1, 3), (2, 20), (7, 8), (0, 1)] :: (32 word \<times> 32 word) list) = Some t \<and>
       length (nodes t) = 5 \<and>
       inside_max_end (nodes t ! 3) = subtree_max_end snd (nodes t) 3 \<and>
       map inside_max_end (nodes t) = [1, 20, 20, 20, 8] \<and>
       map (subtree_max_end snd (nodes t)) [0, 1, 2, 3, 4] = [1, 20, 20, 20, 8]"
proof -
  let ?its = "[(5, 10), (1, 3), (2, 20), (7, 8), (0, 1)] :: (32 word \<times> 32 word) list"
  let ?t = "\<lparr>nodes =
     [\<lparr>item = (0, 1), inside_max_end = 1\<rparr>,
      \<lparr>item = (1, 3), inside_max_end = 20\<rparr>,
      \<lparr>item = (2, 20), inside_max_end = 20\<rparr>,
      \<lparr>item = (5, 10), inside_max_end = 20\<rparr>,
      \<lparr>item = (7, 8), inside_max_end = 8\<rparr>],
     full_size = 7, root = 3, root_level = 2\<rparr> :: (32 word, 32 word \<times> 32 word) iit_node_base iit_base"
  have b: "iit_build False fst snd ?its = Some ?t" by code_simp
  have s: "map (subtree_max_end snd (nodes ?t)) [0, 1, 2, 3, 4] = [1, 20, 20, 20, 8]"
    by code_simp
  note inside_max_end_subtree_max[of False ?its snd fst, THEN conjunct2, rule_format, OF b]
  note this[THEN conjunct2, rule_format, of 3]
  then have "inside_max_end (nodes ?t ! 3) = subtree_max_end snd (nodes ?t) 3" by simp
  then show ?thesis using b s by simp
qed

text \<open>
  C6. The build returns an index when assertions are off or no end position is the
  reserved \<^verbatim>\<open>npos\<close>; and in every index that the build returns, the node array holds the
  items and is sorted by begin position, then end position.
\<close>

theorem nodes_sorted:
  fixes ge :: "'a \<Rightarrow> 'p::{linorder, order_top}"
  shows "(ndebug \<or> (\<forall>x \<in> set its. ge x \<noteq> top) \<longrightarrow> (\<exists>t. iit_build ndebug gb ge its = Some t)) \<and>
         (\<forall>t. iit_build ndebug gb ge its = Some t \<longrightarrow>
            mset (map item (nodes t)) = mset its \<and>
            (\<forall>i j. i < j \<and> j < length (nodes t) \<longrightarrow>
               gb (item (nodes t ! i)) < gb (item (nodes t ! j)) \<or>
               gb (item (nodes t ! i)) = gb (item (nodes t ! j)) \<and>
               ge (item (nodes t ! i)) \<le> ge (item (nodes t ! j))))"
proof -
  have "gb (item (nodes t ! i)) < gb (item (nodes t ! j)) \<or>
        gb (item (nodes t ! i)) = gb (item (nodes t ! j)) \<and>
        ge (item (nodes t ! i)) \<le> ge (item (nodes t ! j))"
    if b: "iit_build ndebug gb ge its = Some t" and ij: "i < j" "j < length (nodes t)" for t i j
  proof -
    have "sorted_wrt (node_le gb ge) (nodes t)"
      using iit_build_Some(1)[OF b] by (simp add: iit_wf_def)
    then have "node_le gb ge (nodes t ! i) (nodes t ! j)"
      using ij by (simp add: sorted_wrt_iff_nth_less)
    then show ?thesis by (simp add: node_le_def)
  qed
  then show ?thesis
    using iit_build_total[of ndebug its ge gb] iit_build_Some(2)[of ndebug gb ge its] by blast
qed

theorem nodes_sorted_witness:
  "\<exists>t. iit_build False fst snd
          ([(5, 10), (1, 3), (5, 7), (7, 8), (0, 1)] :: (32 word \<times> 32 word) list) = Some t \<and>
       map item (nodes t) = [(0, 1), (1, 3), (5, 7), (5, 10), (7, 8)] \<and>
       (fst (item (nodes t ! 2)) < fst (item (nodes t ! 3)) \<or>
        fst (item (nodes t ! 2)) = fst (item (nodes t ! 3)) \<and>
        snd (item (nodes t ! 2)) \<le> snd (item (nodes t ! 3)))"
proof -
  let ?its = "[(5, 10), (1, 3), (5, 7), (7, 8), (0, 1)] :: (32 word \<times> 32 word) list"
  let ?t = "\<lparr>nodes =
     [\<lparr>item = (0, 1), inside_max_end = 1\<rparr>,
      \<lparr>item = (1, 3), inside_max_end = 7\<rparr>,
      \<lparr>item = (5, 7), inside_max_end = 7\<rparr>,
      \<lparr>item = (5, 10), inside_max_end = 10\<rparr>,
      \<lparr>item = (7, 8), inside_max_end = 8\<rparr>],
     full_size = 7, root = 3, root_level = 2\<rparr> :: (32 word, 32 word \<times> 32 word) iit_node_base iit_base"
  have b: "iit_build False fst snd ?its = Some ?t" by code_simp
  note nodes_sorted[of False ?its snd fst, THEN conjunct2, rule_format, OF b]
  note this[THEN conjunct2, rule_format, of 2 3]
  then have "fst (item (nodes ?t ! 2)) < fst (item (nodes ?t ! 3)) \<or>
        fst (item (nodes ?t ! 2)) = fst (item (nodes ?t ! 3)) \<and>
        snd (item (nodes ?t ! 2)) \<le> snd (item (nodes ?t ! 3))"
    by simp
  then show ?thesis using b by simp
qed

text \<open>
  C8. A query with \<open>qend \<le> qbeg\<close> is answered like any other: on every index built from
  a non-empty item set it returns the stored items \<open>x\<close> with \<open>beg(x) < qend\<close> and
  \<open>qbeg < end(x)\<close>, which then extend over both \<open>qend\<close> and \<open>qbeg\<close>; the result is empty
  exactly when there is no such item.
\<close>

theorem overlap_reversed_query:
  fixes ge :: "'a \<Rightarrow> 'p::{linorder, order_top}"
  assumes "its \<noteq> []" and "qend \<le> qbeg"
  shows "(ndebug \<or> (\<forall>x \<in> set its. ge x \<noteq> top) \<longrightarrow> (\<exists>t. iit_build ndebug gb ge its = Some t)) \<and>
         (\<forall>t. iit_build ndebug gb ge its = Some t \<longrightarrow>
            (\<exists>c r. overlap ndebug gb ge t qbeg qend = Some (c, r) \<and>
               mset r = filter_mset (\<lambda>x. gb x < qend \<and> qend \<le> qbeg \<and> qbeg < ge x) (mset its) \<and>
               (r = [] \<longleftrightarrow> \<not> (\<exists>x \<in> set its. gb x < qend \<and> qbeg < ge x))))"
proof -
  have "\<exists>c r. overlap ndebug gb ge t qbeg qend = Some (c, r) \<and>
               mset r = filter_mset (\<lambda>x. gb x < qend \<and> qend \<le> qbeg \<and> qbeg < ge x) (mset its) \<and>
               (r = [] \<longleftrightarrow> \<not> (\<exists>x \<in> set its. gb x < qend \<and> qbeg < ge x))"
    if b: "iit_build ndebug gb ge its = Some t" for t
  proof -
    from iit_build_overlap[OF b assms(1), of qbeg qend] obtain c r where
      r: "overlap ndebug gb ge t qbeg qend = Some (c, r)"
      "mset r = filter_mset (\<lambda>x. ge x > qbeg \<and> gb x < qend) (mset its)" by blast
    have m: "mset r = filter_mset (\<lambda>x. gb x < qend \<and> qend \<le> qbeg \<and> qbeg < ge x) (mset its)"
      unfolding r(2) using assms(2) by (intro filter_mset_cong) auto
    have "r = [] \<longleftrightarrow> mset r = {#}" by simp
    also have "\<dots> \<longleftrightarrow> \<not> (\<exists>x \<in> set its. gb x < qend \<and> qbeg < ge x)"
      unfolding r(2) by auto
    finally show ?thesis using r(1) m by blast
  qed
  then show ?thesis using iit_build_total[of ndebug its ge gb] by blast
qed

theorem overlap_reversed_query_witness:
  "\<exists>t c r. iit_build False fst snd ([(0, 100), (45, 47), (60, 70)] :: (32 word \<times> 32 word) list)
               = Some t \<and>
     overlap False fst snd t 50 40 = Some (c, r) \<and> mset r = {#(0, 100)#} \<and> r \<noteq> []"
proof -
  let ?its = "[(0, 100), (45, 47), (60, 70)] :: (32 word \<times> 32 word) list"
  have ok: "\<forall>x \<in> set ?its. snd x \<noteq> top" by (simp add: top_word_eq)
  have f: "filter_mset (\<lambda>x. fst x < 40 \<and> (40 :: 32 word) \<le> 50 \<and> 50 < snd x) (mset ?its)
             = {#(0, 100)#}"
    by simp
  have ne: "?its \<noteq> []" and le: "(40 :: 32 word) \<le> 50" by simp_all
  from overlap_reversed_query[OF ne le, of False snd fst] ok
  show ?thesis unfolding f by fastforce
qed

text \<open>
  The claim C8 as stated fails: the index of the single item \<open>[0, 100)\<close> answers the query
  with \<open>qbeg = 50\<close> and \<open>qend = 40\<close> with that item, after visiting the imaginary root and
  the leaf.
\<close>

theorem overlap_reversed_query_nonempty:
  "iit_build False fst snd ([(0, 100)] :: (32 word \<times> 32 word) list) =
     Some \<lparr>nodes = [\<lparr>item = (0, 100), inside_max_end = 100\<rparr>],
           full_size = 3, root = 1, root_level = 1\<rparr> \<and>
   overlap False fst snd
     \<lparr>nodes = [\<lparr>item = (0, 100), inside_max_end = 100\<rparr>],
      full_size = 3, root = 1, root_level = 1\<rparr> 50 40 = Some (2, [(0, 100 :: 32 word)])"
  by code_simp

section \<open>The two ingestion paths of the builder\<close>

lemma add_range_fold:
  "add_range mk b its = fold (\<lambda>it b. add mk b it) its b"
  by (simp add: add_range_def)

lemma iit_base_ctor_geometry:
  assumes "iit_base_ctor ndebug gb ge nodes_in = Some t"
  shows "(root_level t, full_size t) = tree_geometry (length nodes_in) 0 0"
    and "root t = 2 ^ root_level t - 1"
proof -
  obtain rl fs where g: "tree_geometry (length nodes_in) 0 0 = (rl, fs)" by fastforce
  have "root_level t = rl \<and> full_size t = fs \<and> root t = 2 ^ rl - 1"
  proof (cases "nodes_in = []")
    case True
    then show ?thesis using assms g by (auto simp: iit_base_ctor_empty tree_geometry_empty)
  next
    case False
    show ?thesis using assms unfolding iit_base_ctor_nonempty[OF False g]
      by (auto split: option.splits)
  qed
  then show "(root_level t, full_size t) = tree_geometry (length nodes_in) 0 0"
    and "root t = 2 ^ root_level t - 1" using g by simp_all
qed

text \<open>The sort key of a node.\<close>

definition node_key ::
  "('a \<Rightarrow> 'p) \<Rightarrow> ('a \<Rightarrow> 'p) \<Rightarrow> ('p, 'a, 'm) iit_node_base_scheme \<Rightarrow> 'p \<times> 'p" where
  "node_key gb ge n = (gb (item n), ge (item n))"

lemma sorted_node_keys:
  fixes gb :: "'a \<Rightarrow> 'p::linorder"
  assumes "sorted_wrt (node_le gb ge) ns"
  shows "sorted (map (node_key gb ge) ns)"
proof -
  have "sorted_wrt (\<lambda>a b. node_key gb ge a \<le> node_key gb ge b) ns"
    using assms
    by (rule sorted_wrt_mono_rel[rotated]) (auto simp: node_le_def node_key_def less_eq_prod_def)
  then show ?thesis by (simp add: sorted_map)
qed

lemma sorted_same_mset:
  fixes xs :: "'k::linorder list"
  assumes "sorted xs" "sorted ys" "mset xs = mset ys"
  shows "xs = ys"
  using properties_for_sort[OF assms(3) assms(1)] properties_for_sort[OF refl assms(2)]
  by simp

lemma mset_node_keys:
  "mset (map (node_key gb ge) ns) = image_mset (\<lambda>x. (gb x, ge x)) (mset (map item ns))"
  by (simp add: multiset.map_comp comp_def node_key_def[abs_def])

lemma ends_node_keys: "map (\<lambda>n. ge (item n)) ns = map snd (map (node_key gb ge) ns)"
  by (simp add: node_key_def)

lemma iit_wf_determined:
  fixes gb :: "'a \<Rightarrow> 'p::linorder"
  assumes wf: "iit_wf gb ge t" "iit_wf gb ge t'"
    and m: "mset (map item (nodes t)) = mset (map item (nodes t'))"
  shows "map (node_key gb ge) (nodes t) = map (node_key gb ge) (nodes t')"
    and "map inside_max_end (nodes t) = map inside_max_end (nodes t')"
proof -
  have "mset (map (node_key gb ge) (nodes t)) = mset (map (node_key gb ge) (nodes t'))"
    unfolding mset_node_keys m ..
  moreover have "sorted (map (node_key gb ge) (nodes t))" "sorted (map (node_key gb ge) (nodes t'))"
    using wf by (simp_all add: iit_wf_def sorted_node_keys)
  ultimately show k: "map (node_key gb ge) (nodes t) = map (node_key gb ge) (nodes t')"
    by (intro sorted_same_mset)
  have es: "map (\<lambda>n. ge (item n)) (nodes t) = map (\<lambda>n. ge (item n)) (nodes t')"
    unfolding ends_node_keys[of ge _ gb] k ..
  have len: "length (nodes t) = length (nodes t')" using k by (metis length_map)
  show "map inside_max_end (nodes t) = map inside_max_end (nodes t')"
  proof (rule nth_equalityI)
    show "length (map inside_max_end (nodes t)) = length (map inside_max_end (nodes t'))"
      using len by simp
  next
    fix n assume "n < length (map inside_max_end (nodes t))"
    then have n: "n < length (nodes t)" by simp
    define k where "k = trailing_ones n"
    obtain j where j: "n = nd k j" unfolding k_def using nd_trailing_ones by blast
    have "inside_max_end (nodes t ! nd k j) = smax (map (\<lambda>n. ge (item n)) (nodes t)) k j"
      using wf(1) n j by (simp add: iit_wf_def)
    moreover have
      "inside_max_end (nodes t' ! nd k j) = smax (map (\<lambda>n. ge (item n)) (nodes t')) k j"
      using wf(2) n j len by (simp add: iit_wf_def)
    ultimately show "map inside_max_end (nodes t) ! n = map inside_max_end (nodes t') ! n"
      using n len es j by simp
  qed
qed

text \<open>
  C9. Adding the items one at a time and adding them as a range fill the buffer alike, so for
  the same order of the items the two paths build the same index. For two orders of the same
  multiset of items, whenever both builds return, the two indices have the same geometry, the
  same sequence of sort keys \<open>(beg, end)\<close> and of \<^verbatim>\<open>inside_max_end\<close>, hold the same multiset
  of items, and (when there is an item) answer every query with the same multiset. Items
  with the same \<open>(beg, end)\<close> can be in a different order in the two node arrays
  (theorem \<open>builder_order_of_ties\<close>). Both builders are left with an empty buffer.
\<close>

theorem builder_paths_agree:
  fixes ge :: "'a \<Rightarrow> 'p::{linorder, order_top}"
  assumes "mset its = mset its'"
    and "build (iit_base_ctor ndebug gb ge)
           (fold (\<lambda>it b. add (iit_node_base_ctor ge) b it) its builder_empty) = (Some t, b)"
    and "build (iit_base_ctor ndebug gb ge)
           (add_range (iit_node_base_ctor ge) builder_empty its') = (Some t', b')"
  shows "(its = its' \<longrightarrow> t = t') \<and>
         root_level t = root_level t' \<and> root t = root t' \<and> full_size t = full_size t' \<and>
         map (node_key gb ge) (nodes t) = map (node_key gb ge) (nodes t') \<and>
         map inside_max_end (nodes t) = map inside_max_end (nodes t') \<and>
         mset (map item (nodes t)) = mset (map item (nodes t')) \<and>
         (its \<noteq> [] \<longrightarrow>
            (\<exists>c r c' r'. overlap ndebug gb ge t qbeg qend = Some (c, r) \<and>
               overlap ndebug gb ge t' qbeg qend = Some (c', r') \<and> mset r = mset r')) \<and>
         builder_nodes b = [] \<and> builder_nodes b' = []"
proof -
  have b1: "iit_build ndebug gb ge its = Some t"
    using assms(2)
    by (simp add: iit_build_def builder_of_range_def add_range_fold)
  have b2: "iit_build ndebug gb ge its' = Some t'"
    using assms(3) by (simp add: iit_build_def builder_of_range_def)
  note t = iit_build_Some[OF b1] and t' = iit_build_Some[OF b2]
  have m: "mset (map item (nodes t)) = mset (map item (nodes t'))"
    using t(2) t'(2) assms(1) by simp
  have len: "length its = length its'" using assms(1) by (metis size_mset)
  have g: "(root_level t, full_size t) = (root_level t', full_size t')"
    using iit_base_ctor_geometry(1)[OF b1[unfolded iit_build_eq]]
      iit_base_ctor_geometry(1)[OF b2[unfolded iit_build_eq]] len by simp
  then have r: "root t = root t'"
    using iit_base_ctor_geometry(2)[OF b1[unfolded iit_build_eq]]
      iit_base_ctor_geometry(2)[OF b2[unfolded iit_build_eq]] by simp
  have q: "\<exists>c r c' r'. overlap ndebug gb ge t qbeg qend = Some (c, r) \<and>
               overlap ndebug gb ge t' qbeg qend = Some (c', r') \<and> mset r = mset r'"
    if ne: "its \<noteq> []"
  proof -
    have ne': "its' \<noteq> []" using ne len by auto
    from iit_build_overlap[OF b1 ne, of qbeg qend] obtain c r where
      r: "overlap ndebug gb ge t qbeg qend = Some (c, r)"
         "mset r = filter_mset (\<lambda>x. ge x > qbeg \<and> gb x < qend) (mset its)" by blast
    from iit_build_overlap[OF b2 ne', of qbeg qend] obtain c' r' where
      r': "overlap ndebug gb ge t' qbeg qend = Some (c', r')"
         "mset r' = filter_mset (\<lambda>x. ge x > qbeg \<and> gb x < qend) (mset its')" by blast
    have "mset r = mset r'" unfolding r(2) r'(2) assms(1) ..
    then show ?thesis using r(1) r'(1) by blast
  qed
  have "its = its' \<longrightarrow> t = t'" using b1 b2 by auto
  moreover have "builder_nodes b = []" "builder_nodes b' = []"
    using assms(2,3) by (auto simp: build_def)
  moreover have "root_level t = root_level t'" "full_size t = full_size t'" using g by simp_all
  moreover note r iit_wf_determined[OF t(1) t'(1) m] m
  moreover have "its \<noteq> [] \<longrightarrow>
            (\<exists>c r c' r'. overlap ndebug gb ge t qbeg qend = Some (c, r) \<and>
               overlap ndebug gb ge t' qbeg qend = Some (c', r') \<and> mset r = mset r')"
    using q by blast
  ultimately show ?thesis by (intro conjI)
qed

theorem builder_paths_agree_witness:
  "\<exists>t t' b b'.
     build (iit_base_ctor False fst (\<lambda>x. fst (snd x)))
       (fold (\<lambda>it b. add (iit_node_base_ctor (\<lambda>x. fst (snd x))) b it)
          ([(5, 9, 0), (1, 3, 1), (5, 9, 2)] :: (32 word \<times> 32 word \<times> nat) list) builder_empty)
       = (Some t, b) \<and>
     build (iit_base_ctor False fst (\<lambda>x. fst (snd x)))
       (add_range (iit_node_base_ctor (\<lambda>x. fst (snd x))) builder_empty
          ([(5, 9, 2), (5, 9, 0), (1, 3, 1)] :: (32 word \<times> 32 word \<times> nat) list))
       = (Some t', b') \<and>
     map item (nodes t) = [(1, 3, 1), (5, 9, 0), (5, 9, 2)] \<and>
     map item (nodes t') = [(1, 3, 1), (5, 9, 2), (5, 9, 0)] \<and>
     map (node_key fst (\<lambda>x. fst (snd x))) (nodes t) = map (node_key fst (\<lambda>x. fst (snd x))) (nodes t') \<and>
     map inside_max_end (nodes t) = map inside_max_end (nodes t') \<and>
     root t = root t' \<and> builder_nodes b = [] \<and> builder_nodes b' = []"
proof -
  let ?ge = "\<lambda>x :: 32 word \<times> 32 word \<times> nat. fst (snd x)"
  let ?its = "[(5, 9, 0), (1, 3, 1), (5, 9, 2)] :: (32 word \<times> 32 word \<times> nat) list"
  let ?its' = "[(5, 9, 2), (5, 9, 0), (1, 3, 1)] :: (32 word \<times> 32 word \<times> nat) list"
  let ?t = "\<lparr>nodes = [\<lparr>item = (1, 3, 1), inside_max_end = 3\<rparr>,
                       \<lparr>item = (5, 9, 0), inside_max_end = 9\<rparr>,
                       \<lparr>item = (5, 9, 2), inside_max_end = 9\<rparr>],
             full_size = 3, root = 1, root_level = 1\<rparr>
            :: (32 word, 32 word \<times> 32 word \<times> nat) iit_node_base iit_base"
  let ?t' = "\<lparr>nodes = [\<lparr>item = (1, 3, 1), inside_max_end = 3\<rparr>,
                       \<lparr>item = (5, 9, 2), inside_max_end = 9\<rparr>,
                       \<lparr>item = (5, 9, 0), inside_max_end = 9\<rparr>],
             full_size = 3, root = 1, root_level = 1\<rparr>
            :: (32 word, 32 word \<times> 32 word \<times> nat) iit_node_base iit_base"
  have e1: "build (iit_base_ctor False fst ?ge)
       (fold (\<lambda>it b. add (iit_node_base_ctor ?ge) b it) ?its builder_empty)
       = (Some ?t, \<lparr>builder_nodes = []\<rparr>)"
    by code_simp
  have e2: "build (iit_base_ctor False fst ?ge)
       (add_range (iit_node_base_ctor ?ge) builder_empty ?its') = (Some ?t', \<lparr>builder_nodes = []\<rparr>)"
    by code_simp
  have m: "mset ?its = mset ?its'" by simp
  note r = builder_paths_agree[OF m e1 e2, of 0 0]
  have k1: "map (node_key fst ?ge) (nodes ?t) = map (node_key fst ?ge) (nodes ?t')"
    using r by (elim conjE)
  have k2: "map inside_max_end (nodes ?t) = map inside_max_end (nodes ?t')"
    using r by (elim conjE)
  have k3: "root ?t = root ?t'"
    using r by (elim conjE)
  have c1: "map item (nodes ?t) = [(1, 3, 1), (5, 9, 0), (5, 9, 2)]"
    and c2: "map item (nodes ?t') = [(1, 3, 1), (5, 9, 2), (5, 9, 0)]"
    and c3: "builder_nodes \<lparr>builder_nodes = []\<rparr> = ([] :: (32 word, 32 word \<times> 32 word \<times> nat) iit_node_base list)"
    by simp_all
  show ?thesis
    by (rule exI[of _ ?t], rule exI[of _ ?t'], rule exI[of _ "\<lparr>builder_nodes = []\<rparr>"],
        rule exI[of _ "\<lparr>builder_nodes = []\<rparr>"])
      (intro conjI e1 e2 k1 k2 k3 c1 c2 c3)
qed

text \<open>
  The claim C9 as stated fails: two items with the same begin and end position stay in the
  order in which they were added (the comparison does not tell them apart, and the sort
  does not move one past the other), so the two orders of insertion give two node arrays.
\<close>

theorem builder_order_of_ties:
  "fst (build (iit_base_ctor False fst (\<lambda>x. fst (snd x)))
       (fold (\<lambda>it b. add (iit_node_base_ctor (\<lambda>x. fst (snd x))) b it)
          ([(1, 2, 0), (1, 2, 1)] :: (32 word \<times> 32 word \<times> nat) list) builder_empty))
     = Some \<lparr>nodes = [\<lparr>item = (1, 2, 0), inside_max_end = 2\<rparr>,
                      \<lparr>item = (1, 2, 1), inside_max_end = 2\<rparr>],
             full_size = 3, root = 1, root_level = 1\<rparr> \<and>
   fst (build (iit_base_ctor False fst (\<lambda>x. fst (snd x)))
       (add_range (iit_node_base_ctor (\<lambda>x. fst (snd x))) builder_empty
          ([(1, 2, 1), (1, 2, 0)] :: (32 word \<times> 32 word \<times> nat) list)))
     = Some \<lparr>nodes = [\<lparr>item = (1, 2, 1), inside_max_end = 2\<rparr>,
                      \<lparr>item = (1, 2, 0), inside_max_end = 2\<rparr>],
             full_size = 3, root = 1, root_level = 1\<rparr>"
  by code_simp


end
